theory Spec2Isabelle
  imports Complex_Main
begin

section \<open>The concurrent URL processor of src/lib/concurrency.core.ts\<close>

text \<open>
  \<^verbatim>\<open>processUrlsConcurrentlyInTabs\<close> is an async function on JavaScript's single-threaded
  event loop: the code between two \<^verbatim>\<open>await\<close>s runs without interruption, and at an
  \<^verbatim>\<open>await\<close> the function is suspended until the awaited promise settles. The embedding
  is an event-driven state machine. The state holds the variables of the closure and, for
  every call of \<^verbatim>\<open>executeTaskWithRetries\<close> made so far, the \<^verbatim>\<open>await\<close> it is suspended
  at together with its local variables, or how it has ended. An event is what the
  environment does: the promise of a task settles, a retry timer fires, the abort signal
  fires, an awaited callback settles, or the continuation of a worker or of the main
  function is run. Each event runs the code up to the next \<^verbatim>\<open>await\<close>. A run is a list of
  events; the order of the events is the interleaving, and nothing is assumed about it.

  What is left out: timestamps and durations (real time), and \<^verbatim>\<open>logHistory\<close> with the
  console output of \<^verbatim>\<open>log\<close>, which the code only appends to and never reads. The
  \<^verbatim>\<open>console.error\<close> of the two \<^verbatim>\<open>catch\<close> blocks around the callbacks is kept
  (\<open>console\<close>), since it is the only trace a failing callback leaves.

  The task and the two callbacks are opaque. What they are called with (\<^verbatim>\<open>browser\<close>,
  \<^verbatim>\<open>taskOptions\<close>, the \<^verbatim>\<open>statsNow\<close> snapshot with its \<^verbatim>\<open>successCount\<close> and
  \<^verbatim>\<open>failureCount\<close>) is not modelled; how they settle comes with the event. A rejected
  task comes with its error as line 173 leaves it in \<^verbatim>\<open>lastError\<close>.

  A call of \<^verbatim>\<open>executeTaskWithRetries\<close> returns a promise. Nothing in its body catches
  what \<^verbatim>\<open>isRetryable\<close> (line 177), a \<^verbatim>\<open>retryDelayMs\<close> function (line 180) or
  \<^verbatim>\<open>successfulResults.push(...taskResult)\<close> (line 222) throws: then the promise of the
  call is rejected. \<^verbatim>\<open>isRetryable\<close> and a \<^verbatim>\<open>retryDelayMs\<close> function are functions of
  their argument: called twice with the same argument they do the same.
\<close>

subsection \<open>Numbers\<close>

text \<open>
  A JavaScript number is an IEEE 754 double: \<open>Num x\<close> is the double of value \<open>x\<close>.
  \<open>toDouble x\<close> is the real number \<open>x\<close> rounded to a double, to the nearest one and to the
  even significand on a tie: around \<open>x\<close> the doubles are the multiples of
  \<open>2 ^ (e - 52)\<close>, where \<open>2 ^ e \<le> \<bar>x\<bar> < 2 ^ (e + 1)\<close> and \<open>e\<close> is taken as -1022 below
  that; a result of magnitude \<open>2 ^ 1024\<close> or more is an infinity. The sign of a zero is
  not modelled.
\<close>

datatype number = Num real | PosInf | NegInf | NaN

definition roundHalfEven :: "real \<Rightarrow> int" where
  "roundHalfEven y =
     (let f = \<lfloor>y\<rfloor>; r = y - of_int f
      in if r < 1 / 2 then f else if 1 / 2 < r then f + 1 else if even f then f else f + 1)"

definition toDouble :: "real \<Rightarrow> number" where
  "toDouble x =
     (if x = 0 then Num 0
      else (let q = 2 powr (of_int (max \<lfloor>log 2 \<bar>x\<bar>\<rfloor> (- 1022)) - 52);
                r = of_int (roundHalfEven (x / q)) * q
            in if 2 powr 1024 \<le> \<bar>r\<bar> then (if 0 < x then PosInf else NegInf) else Num r))"

text \<open>
  \<^verbatim>\<open>retryDelayMs * attempts\<close>: the product of a double and the counter \<^verbatim>\<open>attempts\<close>, the
  exact product rounded to a double.
\<close>

definition multiply :: "number \<Rightarrow> nat \<Rightarrow> number" where
  "multiply x n =
     (case x of
        Num v \<Rightarrow> toDouble (v * real n)
      | PosInf \<Rightarrow> if n = 0 then NaN else PosInf
      | NegInf \<Rightarrow> if n = 0 then NaN else NegInf
      | NaN \<Rightarrow> NaN)"

text \<open>\<^verbatim>\<open>delay > 0\<close>\<close>

definition positive :: "number \<Rightarrow> bool" where
  "positive x = (case x of Num v \<Rightarrow> 0 < v | PosInf \<Rightarrow> True | NegInf \<Rightarrow> False | NaN \<Rightarrow> False)"

text \<open>
  \<^verbatim>\<open>setTimeout(callback, delay)\<close> of Node.js (the code types its timer as
  \<^verbatim>\<open>NodeJS.Timeout\<close>): the duration in milliseconds of the timer it sets. A delay from 1
  to 2147483647 is taken as it is, truncated to a whole number; a delay that is larger,
  less than 1 or \<^verbatim>\<open>NaN\<close> is set to 1.
\<close>

definition setTimeout :: "number \<Rightarrow> nat" where
  "setTimeout x =
     (case x of
        Num v \<Rightarrow> if 1 \<le> v \<and> v \<le> 2147483647 then nat \<lfloor>v\<rfloor> else 1
      | PosInf \<Rightarrow> 1
      | NegInf \<Rightarrow> 1
      | NaN \<Rightarrow> 1)"

subsection \<open>Data model\<close>

text \<open>A JavaScript \<^verbatim>\<open>Error\<close>: its \<^verbatim>\<open>name\<close> and its \<^verbatim>\<open>message\<close>.\<close>

datatype error = Error (name: string) (message: string)

text \<open>
  How the promise returned by \<^verbatim>\<open>taskFunction\<close> settles. \<open>Resolved rs\<close>: it resolves with
  the array \<open>rs\<close>, which \<^verbatim>\<open>successfulResults.push(...taskResult)\<close> can take.
  \<open>Oversized e\<close>: it resolves with an array of more elements than the JavaScript engine
  accepts as the arguments of one call, so that \<^verbatim>\<open>push(...taskResult)\<close> throws \<open>e\<close>, a
  \<^verbatim>\<open>RangeError\<close>, and pushes nothing. \<open>Rejected e\<close>: it rejects, or the task throws.
\<close>

datatype 'a outcome = Resolved "'a list" | Oversized error | Rejected error

datatype mode = Threads | Portions

text \<open>
  \<^verbatim>\<open>retryDelayMs?: number | ((attempt: number) => number)\<close>. A function returns a number
  (\<open>Inr\<close>) or throws (\<open>Inl\<close>).
\<close>

datatype retry_delay = Ms number | Fn "nat \<Rightarrow> error + number"

text \<open>
  The arguments of one call: \<^verbatim>\<open>urls\<close>, \<^verbatim>\<open>maxConcurrency\<close> and the fields of \<^verbatim>\<open>options\<close>
  after destructuring (an absent field has its default, see \<open>default_call\<close>).
  \<open>signal = None\<close> is a call without an \<^verbatim>\<open>AbortSignal\<close>; \<open>signal = Some b\<close> is a call
  with a signal whose \<^verbatim>\<open>aborted\<close> flag is \<open>b\<close> when the call is made. The callbacks are
  opaque: \<open>onProgress\<close> and \<open>onError\<close> say whether one is provided, and how an awaited
  callback settles is part of the run. \<open>isRetryable\<close> returns a boolean (\<open>Inr\<close>) or throws
  (\<open>Inl\<close>). \<^verbatim>\<open>maxRetries\<close> and \<^verbatim>\<open>maxConcurrency\<close> are natural numbers, as the
  specification requires.
\<close>

record call =
  urls :: "string list"
  maxConcurrency :: nat
  mode :: mode
  maxRetries :: nat
  retryDelayMs :: retry_delay
  signal :: "bool option"
  onProgress :: bool
  onError :: bool
  isRetryable :: "error \<Rightarrow> error + bool"

definition default_call :: "string list \<Rightarrow> nat \<Rightarrow> call" where
  "default_call us n =
     \<lparr>urls = us, maxConcurrency = n, mode = Threads, maxRetries = 0,
      retryDelayMs = Ms (Num 500), signal = None, onProgress = False, onError = False,
      isRetryable = (\<lambda>e. Inr (name e = ''TimeoutError''))\<rparr>"

record RunStats =
  totalUrlsProvided :: int
  totalUrlsAttempted :: int
  totalSuccess :: int
  totalFailed :: int
  totalRetriesMade :: int

text \<open>
  \<^verbatim>\<open>successfulResults\<close> and \<^verbatim>\<open>failedTasks\<close> are arrays of the closure and fields of the
  returned \<^verbatim>\<open>ProcessUrlsResult\<close>; both records extend \<open>accum\<close>.
\<close>

record 'a accum =
  successfulResults :: "'a list"
  failedTasks :: "(string \<times> error) list"

record 'a ProcessUrlsResult = "'a accum" +
  stats :: RunStats

text \<open>
  A call of \<^verbatim>\<open>executeTaskWithRetries\<close>: where it is suspended, with the local variables
  \<^verbatim>\<open>url\<close>, \<^verbatim>\<open>attempts\<close> and \<^verbatim>\<open>lastError\<close> that are read afterwards, or how it has ended:
  \<open>Returned\<close>, its promise is fulfilled, or \<open>Threw e\<close>, its promise is rejected with \<open>e\<close>.
  \<open>timer\<close> is the duration in milliseconds of the timer of the retry delay. \<open>invoked\<close> is
  a ghost counter: the number of times this call has invoked \<^verbatim>\<open>taskFunction\<close>.
\<close>

datatype exec =
    NotStarted
  | AwaitTask (url: string) (attempts: nat) (invoked: nat)
  | AwaitDelay (url: string) (attempts: nat) (lastError: error) (invoked: nat) (timer: nat)
  | AwaitOnError error
  | AwaitOnProgress
  | Returned
  | Threw error

text \<open>
  A call of \<^verbatim>\<open>startWorker\<close> ('threads' mode): \<open>Awaiting k\<close>, it is suspended at
  \<^verbatim>\<open>await executeTaskWithRetries(url)\<close> on the \<open>k\<close>-th call of \<^verbatim>\<open>executeTaskWithRetries\<close>;
  \<open>WorkerDone\<close>, it has left its loop and its promise is fulfilled; \<open>WorkerFailed e\<close>, the
  awaited call has thrown \<open>e\<close> and so has the worker: its promise is rejected.
\<close>

datatype worker = Idle | Awaiting nat | WorkerDone | WorkerFailed error

record 'a common = "'a accum" +
  aborted :: bool
  abortListeners :: "nat list"
  urlQueue :: "string list"
  chunkStart :: nat
  execs :: "exec list"
  workers :: "worker list"
  chunk :: "nat list"
  allRejected :: "error option"
  completedCount :: nat

record 'a state = "'a common" +
  totalRetriesMade :: nat
  itemLog :: "(string \<times> nat) list"

text \<open>
  \<open>common\<close> holds what the closures of both engines (this one and the one of
  src/lib/utils.ts) have.
  \<open>execs\<close>: the calls of \<^verbatim>\<open>executeTaskWithRetries\<close> made so far, in the order in which they
  were made; the position of a call in this list identifies it. \<open>workers\<close>: the calls of
  \<^verbatim>\<open>startWorker\<close>, worker \<open>i + 1\<close> at position \<open>i\<close>. \<open>chunk\<close>: the calls whose promises are in
  the array \<^verbatim>\<open>promises\<close> of the current chunk ('portions' mode). \<open>allRejected\<close>: what the
  promise of the \<^verbatim>\<open>Promise.all(...)\<close> that the main function awaits is rejected with,
  \<open>None\<close> as long as it is not rejected; \<^verbatim>\<open>Promise.all\<close> rejects as soon as one of its
  promises does, with the same error. \<open>abortListeners\<close>: the calls whose \<^verbatim>\<open>abortHandler\<close>
  is registered on the signal, in the order of registration. \<open>chunkStart\<close>: the loop
  variable \<^verbatim>\<open>i\<close> of 'portions' mode. \<open>itemLog\<close> is ghost state: for every call of
  \<^verbatim>\<open>executeTaskWithRetries\<close> that has left its retry loop, its url and its number of task
  invocations.
\<close>

text \<open>
  How the promise returned by \<^verbatim>\<open>processUrlsConcurrentlyInTabs\<close> has settled.
  \<open>Fresh r\<close>: the early return of line 244, an object with arrays of its own.
  \<open>Shared st\<close>: the return of line 291, an object with the statistics \<open>st\<close> whose
  \<^verbatim>\<open>successfulResults\<close> and \<^verbatim>\<open>failedTasks\<close> are the arrays of the closure themselves: what a
  call of \<^verbatim>\<open>executeTaskWithRetries\<close> pushes after the return is pushed to the arrays of the
  returned object. \<open>Failed e\<close>: the function has thrown \<open>e\<close>, the promise is rejected.
\<close>

datatype 'a settlement = Fresh "'a ProcessUrlsResult" | Shared RunStats | Failed error

text \<open>
  A call in progress: the variables of its closure, what its \<^verbatim>\<open>catch\<close> blocks around the
  callbacks have written with \<^verbatim>\<open>console.error\<close>, and how its promise has settled, \<open>None\<close>
  while it is pending.
\<close>

record 'a engine =
  closure :: "'a state"
  console :: "string list"
  returned :: "'a settlement option"

datatype 'a event =
    TaskSettled nat "'a outcome"
  | TimerFired nat
  | Abort
  | CallbackSettled nat bool
  | WorkerResumed nat
  | MainResumed

text \<open>
  \<open>TaskSettled k out\<close>: the task awaited by call \<open>k\<close> of \<^verbatim>\<open>executeTaskWithRetries\<close> settles
  with \<open>out\<close>. \<open>TimerFired k\<close>: the \<^verbatim>\<open>setTimeout\<close> of the retry delay of call \<open>k\<close> fires.
  \<open>Abort\<close>: the signal is aborted. \<open>CallbackSettled k threw\<close>: the callback awaited by
  call \<open>k\<close> returns (\<open>threw = False\<close>) or throws or rejects (\<open>threw = True\<close>; a callback
  that throws before returning is this event coming at once).
  \<open>WorkerResumed i\<close>: the continuation of worker \<open>i + 1\<close> after
  \<^verbatim>\<open>await executeTaskWithRetries(url)\<close>. \<open>MainResumed\<close>: the continuation of the main
  function after \<^verbatim>\<open>await Promise.all(...)\<close>. An event that nothing is waiting for leaves
  the state as it is.
\<close>

subsection \<open>The closure's constants\<close>

text \<open>\<^verbatim>\<open>[...new Set(urls)]\<close>: every element is added unless it is already in the set.\<close>

fun addAll :: "'a list \<Rightarrow> 'a list \<Rightarrow> 'a list" where
  "addAll acc [] = acc"
| "addAll acc (x # xs) = addAll (if x \<in> set acc then acc else acc @ [x]) xs"

definition uniqueUrls :: "call \<Rightarrow> string list" where
  "uniqueUrls c = addAll [] (urls c)"

definition urlsToProcess :: "call \<Rightarrow> string list" where
  "urlsToProcess c = (if mode c = Threads then uniqueUrls c else urls c)"

definition totalUrlsToProcess :: "call \<Rightarrow> nat" where
  "totalUrlsToProcess c = length (urlsToProcess c)"

definition initialUrlCount :: "call \<Rightarrow> nat" where
  "initialUrlCount c = length (urls c)"

subsection \<open>executeTaskWithRetries\<close>

definition exec_at :: "('a, 'z) common_scheme \<Rightarrow> nat \<Rightarrow> exec option" where
  "exec_at s k = (if k < length (execs s) then Some (execs s ! k) else None)"

definition set_exec ::
  "nat \<Rightarrow> exec \<Rightarrow> ('a, 'z) common_scheme \<Rightarrow> ('a, 'z) common_scheme" where
  "set_exec k e s = s\<lparr>execs := (execs s)[k := e]\<rparr>"

text \<open>
  Call \<open>k\<close> throws \<open>e\<close>: its promise is rejected. In 'portions' mode this rejects the
  promise of \<^verbatim>\<open>Promise.all(promises)\<close> when the call is of the current chunk and that
  promise is not rejected yet. In 'threads' mode the worker that awaits the call sees
  the rejection when it is resumed.
\<close>

definition reject ::
  "call \<Rightarrow> nat \<Rightarrow> error \<Rightarrow> ('a, 'z) common_scheme \<Rightarrow> ('a, 'z) common_scheme" where
  "reject c k e s =
     (set_exec k (Threw e) s)
       \<lparr>allRejected :=
          (if mode c = Portions \<and> k \<in> set (chunk s) \<and> allRejected s = None then Some e
           else allRejected s)\<rparr>"

text \<open>
  \<^verbatim>\<open>const delay = typeof retryDelayMs === 'function' ? retryDelayMs(attempts)
     : retryDelayMs * attempts;\<close>
\<close>

definition delay :: "retry_delay \<Rightarrow> nat \<Rightarrow> error + number" where
  "delay d n = (case d of Fn f \<Rightarrow> f n | Ms ms \<Rightarrow> Inr (multiply ms n))"

text \<open>
  Lines 226-233: \<^verbatim>\<open>if (onProgress && lastError?.message !== 'Operation aborted')\<close> the
  callback is awaited; then the call returns. \<open>operationAborted err\<close> is
  \<^verbatim>\<open>lastError?.message === 'Operation aborted'\<close>.
\<close>

definition operationAborted :: "error option \<Rightarrow> bool" where
  "operationAborted err =
     (case err of None \<Rightarrow> False | Some e \<Rightarrow> message e = ''Operation aborted'')"

definition progress :: "call \<Rightarrow> nat \<Rightarrow> error option \<Rightarrow> 'a state \<Rightarrow> 'a state" where
  "progress c k err s =
     (if onProgress c \<and> \<not> operationAborted err
      then set_exec k AwaitOnProgress s
      else set_exec k Returned s)"

text \<open>
  Lines 207-224, the code after the retry loop: \<^verbatim>\<open>completedCount++\<close>, then the failure
  is recorded unless its message is \<^verbatim>\<open>'Operation aborted'\<close>, or the results are pushed.
  \<open>taskResult\<close> is \<open>None\<close> for \<^verbatim>\<open>null\<close>, \<open>Some (Inr rs)\<close> for the array \<open>rs\<close> and
  \<open>Some (Inl x)\<close> for an array on which \<^verbatim>\<open>push(...taskResult)\<close> throws \<open>x\<close>.
\<close>

definition complete ::
  "call \<Rightarrow> nat \<Rightarrow> string \<Rightarrow> nat \<Rightarrow> error option \<Rightarrow> (error + 'a list) option \<Rightarrow> 'a state
     \<Rightarrow> 'a state" where
  "complete c k u n err taskResult s =
     (let s1 = s\<lparr>completedCount := completedCount s + 1, itemLog := itemLog s @ [(u, n)]\<rparr>
      in case err of
           Some e \<Rightarrow>
             if message e \<noteq> ''Operation aborted'' then
               (let s2 = s1\<lparr>failedTasks := failedTasks s1 @ [(u, e)]\<rparr>
                in if onError c then set_exec k (AwaitOnError e) s2 else progress c k err s2)
             else progress c k err s1
         | None \<Rightarrow>
             (case taskResult of
                Some (Inr rs) \<Rightarrow>
                  progress c k err
                    (if length rs > 0 then s1\<lparr>successfulResults := successfulResults s1 @ rs\<rparr>
                     else s1)
              | Some (Inl x) \<Rightarrow> reject c k x s1
              | None \<Rightarrow> progress c k err s1))"

text \<open>
  Lines 160-168, the head of the retry loop with \<^verbatim>\<open>attempts = a\<close>: leave the loop when the
  retries are used up, break with \<^verbatim>\<open>'Operation aborted'\<close> when the signal is aborted,
  call the task otherwise. \<open>n\<close> is the ghost count of task invocations so far.
\<close>

definition attempt ::
  "call \<Rightarrow> nat \<Rightarrow> string \<Rightarrow> nat \<Rightarrow> nat \<Rightarrow> error option \<Rightarrow> 'a state \<Rightarrow> 'a state" where
  "attempt c k u a n err s =
     (if a \<le> maxRetries c then
        (if aborted s
         then complete c k u n (Some (Error ''Error'' ''Operation aborted'')) None s
         else set_exec k (AwaitTask u a (n + 1)) s)
      else complete c k u n err None s)"

text \<open>A new call: it runs up to its first \<^verbatim>\<open>await\<close>.\<close>

definition executeTaskWithRetries :: "call \<Rightarrow> string \<Rightarrow> 'a state \<Rightarrow> 'a state" where
  "executeTaskWithRetries c u s =
     attempt c (length (execs s)) u 0 0 None (s\<lparr>execs := execs s @ [NotStarted]\<rparr>)"

text \<open>
  Lines 168-204: the awaited task settles. On an error \<^verbatim>\<open>attempts++\<close>; a retryable error
  with retries left counts a retry and sleeps on a timer (registering the abort handler
  when there is a signal) or, with a delay that is not positive, goes back to the head of
  the loop.
  When \<^verbatim>\<open>isRetryable\<close> throws, or the \<^verbatim>\<open>retryDelayMs\<close> function after the retry is
  counted, the call throws.
\<close>

definition taskSettled :: "call \<Rightarrow> nat \<Rightarrow> 'a outcome \<Rightarrow> 'a state \<Rightarrow> 'a state" where
  "taskSettled c k out s =
     (case exec_at s k of
        Some (AwaitTask u a n) \<Rightarrow>
          (case out of
             Resolved rs \<Rightarrow> complete c k u n None (Some (Inr rs)) s
           | Oversized x \<Rightarrow> complete c k u n None (Some (Inl x)) s
           | Rejected e \<Rightarrow>
               (let a' = a + 1 in
                case isRetryable c e of
                  Inl x \<Rightarrow> reject c k x (s\<lparr>itemLog := itemLog s @ [(u, n)]\<rparr>)
                | Inr retryable \<Rightarrow>
                    if retryable \<and> a' \<le> maxRetries c then
                      (let s1 = s\<lparr>totalRetriesMade := totalRetriesMade s + 1\<rparr>
                       in case delay (retryDelayMs c) a' of
                            Inl x \<Rightarrow> reject c k x (s1\<lparr>itemLog := itemLog s1 @ [(u, n)]\<rparr>)
                          | Inr d \<Rightarrow>
                              if positive d then
                                set_exec k (AwaitDelay u a' e n (setTimeout d))
                                  (s1\<lparr>abortListeners :=
                                        (if signal c = None then abortListeners s1
                                         else abortListeners s1 @ [k])\<rparr>)
                              else attempt c k u a' n (Some e) s1)
                    else complete c k u n (Some e) None s))
      | _ \<Rightarrow> s)"

text \<open>Line 188: the timer removes the abort handler and resolves; the loop goes on.\<close>

definition timerFired :: "call \<Rightarrow> nat \<Rightarrow> 'a state \<Rightarrow> 'a state" where
  "timerFired c k s =
     (case exec_at s k of
        Some (AwaitDelay u a e n d) \<Rightarrow>
          attempt c k u a n (Some e) (s\<lparr>abortListeners := remove1 k (abortListeners s)\<rparr>)
      | _ \<Rightarrow> s)"

text \<open>
  Lines 186 and 190-194: the abort handler rejects the delay promise, the \<^verbatim>\<open>catch\<close>
  sets \<^verbatim>\<open>lastError\<close> to that error and breaks out of the loop.
\<close>

definition abortDuringDelay :: "call \<Rightarrow> 'a state \<Rightarrow> nat \<Rightarrow> 'a state" where
  "abortDuringDelay c s k =
     (case exec_at s k of
        Some (AwaitDelay u a e n d) \<Rightarrow>
          complete c k u n (Some (Error ''Error'' ''Operation aborted during retry delay'')) None s
      | _ \<Rightarrow> s)"

text \<open>
  The signal fires once; its handlers run in the order of registration and are removed
  (\<^verbatim>\<open>{ once: true }\<close>).
\<close>

definition abort :: "call \<Rightarrow> 'a state \<Rightarrow> 'a state" where
  "abort c s =
     (if signal c = None \<or> aborted s then s
      else foldl (abortDuringDelay c) (s\<lparr>aborted := True, abortListeners := []\<rparr>)
             (abortListeners s))"

text \<open>
  Lines 216 and 232: \<^verbatim>\<open>try { await onError(...) } catch (e) { console.error(...) }\<close>, and
  the same around \<^verbatim>\<open>onProgress\<close>. The result is the new closure and the lines written
  to the console.
\<close>

definition callbackSettled ::
  "call \<Rightarrow> nat \<Rightarrow> bool \<Rightarrow> 'a state \<Rightarrow> 'a state \<times> string list" where
  "callbackSettled c k threw s =
     (case exec_at s k of
        Some (AwaitOnError e) \<Rightarrow>
          (progress c k (Some e) s, if threw then [''Error in onError handler:''] else [])
      | Some AwaitOnProgress \<Rightarrow>
          (set_exec k Returned s, if threw then [''Error in onProgress handler:''] else [])
      | _ \<Rightarrow> (s, []))"

subsection \<open>The two dispatch modes\<close>

definition worker_at :: "('a, 'z) common_scheme \<Rightarrow> nat \<Rightarrow> worker option" where
  "worker_at s i = (if i < length (workers s) then Some (workers s ! i) else None)"

definition set_worker ::
  "nat \<Rightarrow> worker \<Rightarrow> ('a, 'z) common_scheme \<Rightarrow> ('a, 'z) common_scheme" where
  "set_worker i w s = s\<lparr>workers := (workers s)[i := w]\<rparr>"

text \<open>
  Lines 251-258, one turn of the loop of \<^verbatim>\<open>startWorker\<close>. \<^verbatim>\<open>if (!url) break;\<close> also
  leaves the loop when the url taken from the queue is the empty string.
\<close>

definition workerLoop :: "call \<Rightarrow> nat \<Rightarrow> 'a state \<Rightarrow> 'a state" where
  "workerLoop c i s =
     (case urlQueue s of
        [] \<Rightarrow> set_worker i WorkerDone s
      | u # rest \<Rightarrow>
          if aborted s then set_worker i WorkerDone s
          else (let s1 = s\<lparr>urlQueue := rest\<rparr>
                in if u = [] then set_worker i WorkerDone s1
                   else set_worker i (Awaiting (length (execs s1)))
                          (executeTaskWithRetries c u s1)))"

text \<open>
  The continuation of a worker after \<^verbatim>\<open>await executeTaskWithRetries(url)\<close>: the next turn
  of its loop when the call has returned; when the call has thrown, the worker throws, and
  the promise of \<^verbatim>\<open>Promise.all(workerPromises)\<close> is rejected unless it is already.
\<close>

definition workerResumed :: "call \<Rightarrow> nat \<Rightarrow> 'a state \<Rightarrow> 'a state" where
  "workerResumed c i s =
     (if mode c = Threads then
        (case worker_at s i of
           Some (Awaiting k) \<Rightarrow>
             (case exec_at s k of
                Some Returned \<Rightarrow> workerLoop c i s
              | Some (Threw e) \<Rightarrow>
                  (set_worker i (WorkerFailed e) s)
                    \<lparr>allRejected := (if allRejected s = None then Some e else allRejected s)\<rparr>
              | _ \<Rightarrow> s)
         | _ \<Rightarrow> s)
      else s)"

text \<open>Lines 277-286.\<close>

definition finalStats :: "call \<Rightarrow> 'a state \<Rightarrow> RunStats" where
  "finalStats c s =
     \<lparr>totalUrlsProvided = int (initialUrlCount c),
      totalUrlsAttempted = int (totalUrlsToProcess c),
      totalSuccess = int (completedCount s) - int (length (failedTasks s)),
      totalFailed = int (length (failedTasks s)),
      totalRetriesMade = int (state.totalRetriesMade s)\<rparr>"

text \<open>
  Lines 266-270, the head of the 'portions' loop with \<^verbatim>\<open>i = chunkStart\<close>: every url of
  the chunk \<^verbatim>\<open>urlsToProcess.slice(i, i + maxConcurrency)\<close> is started, in order, and
  \<^verbatim>\<open>Promise.all\<close> gets their promises. The result is the new closure and, when the loop
  has ended, how the main function returns.
\<close>

definition startChunk :: "call \<Rightarrow> 'a state \<Rightarrow> 'a state \<times> 'a settlement option" where
  "startChunk c s =
     (if chunkStart s < totalUrlsToProcess c then
        (if aborted s then (s, Some (Shared (finalStats c s)))
         else (foldl (\<lambda>t u. (executeTaskWithRetries c u t)\<lparr>chunk := chunk t @ [length (execs t)]\<rparr>)
                 (s\<lparr>chunk := [], allRejected := None\<rparr>)
                 (take (maxConcurrency c) (drop (chunkStart s) (urlsToProcess c))), None))
      else (s, Some (Shared (finalStats c s))))"

text \<open>
  The main function goes on after \<^verbatim>\<open>await Promise.all(...)\<close> once that promise has
  settled: fulfilled when every promise it was given is fulfilled, rejected as soon as one
  of them is rejected. In 'threads' mode (line 263) the main function returns, or throws
  what \<^verbatim>\<open>Promise.all\<close> was rejected with. In 'portions' mode (lines 271-273) the
  \<^verbatim>\<open>catch\<close> only logs: either way \<^verbatim>\<open>maxConcurrency\<close> is added to \<^verbatim>\<open>i\<close> and the loop goes
  to its head, whether or not the other calls of the chunk have ended.
\<close>

definition mainResumed :: "call \<Rightarrow> 'a state \<Rightarrow> 'a state \<times> 'a settlement option" where
  "mainResumed c s =
     (case mode c of
        Threads \<Rightarrow>
          (case allRejected s of
             Some e \<Rightarrow> (s, Some (Failed e))
           | None \<Rightarrow>
               if list_all (\<lambda>w. w = WorkerDone) (workers s)
               then (s, Some (Shared (finalStats c s)))
               else (s, None))
      | Portions \<Rightarrow>
          if allRejected s \<noteq> None \<or> list_all (\<lambda>k. exec_at s k = Some Returned) (chunk s)
          then startChunk c (s\<lparr>chunkStart := chunkStart s + maxConcurrency c\<rparr>)
          else (s, None))"

text \<open>
  Lines 127-131 and 236-275, up to the first \<^verbatim>\<open>await\<close> of the main function: the early
  return on a signal that is already aborted (line 244), the launch of
  \<^verbatim>\<open>Math.min(maxConcurrency, totalUrlsToProcess)\<close> workers, or the first chunk.
\<close>

definition initial :: "call \<Rightarrow> 'a state" where
  "initial c =
     \<lparr>successfulResults = [], failedTasks = [],
      aborted = (signal c = Some True), abortListeners = [], urlQueue = [],
      chunkStart = 0, execs = [], workers = [], chunk = [], allRejected = None,
      completedCount = 0, totalRetriesMade = 0, itemLog = []\<rparr>"

definition start :: "call \<Rightarrow> 'a engine" where
  "start c =
     (if signal c = Some True then
        \<lparr>closure = initial c, console = [],
         returned = Some (Fresh
           \<lparr>successfulResults = [],
            failedTasks = [(''N/A'', Error ''Error'' ''Operation aborted before starting'')],
            stats = \<lparr>totalUrlsProvided = int (initialUrlCount c), totalUrlsAttempted = 0,
                     totalSuccess = 0, totalFailed = 0, totalRetriesMade = 0\<rparr>\<rparr>)\<rparr>
      else case mode c of
             Threads \<Rightarrow>
               (let actualWorkersToLaunch = min (maxConcurrency c) (totalUrlsToProcess c)
                in \<lparr>closure =
                      foldl (\<lambda>t i. workerLoop c i t)
                        ((initial c)\<lparr>urlQueue := urlsToProcess c,
                                     workers := replicate actualWorkersToLaunch Idle\<rparr>)
                        [0..<actualWorkersToLaunch],
                    console = [], returned = None\<rparr>)
           | Portions \<Rightarrow>
               (case startChunk c (initial c) of
                  (s, r) \<Rightarrow> \<lparr>closure = s, console = [], returned = r\<rparr>))"

text \<open>
  The code that an event runs. The continuation of the main function runs as long as the
  main function has not returned or thrown. The calls of \<^verbatim>\<open>executeTaskWithRetries\<close> and
  the workers that are still suspended then go on when their events come: in 'threads'
  mode after the main function has thrown, in 'portions' mode the calls of a chunk that
  the \<^verbatim>\<open>catch\<close> has left behind.
\<close>

fun step :: "call \<Rightarrow> 'a engine \<Rightarrow> 'a event \<Rightarrow> 'a engine" where
  "step c m (TaskSettled k out) = m\<lparr>closure := taskSettled c k out (closure m)\<rparr>"
| "step c m (TimerFired k) = m\<lparr>closure := timerFired c k (closure m)\<rparr>"
| "step c m Abort = m\<lparr>closure := abort c (closure m)\<rparr>"
| "step c m (CallbackSettled k threw) =
     (case callbackSettled c k threw (closure m) of
        (s, out) \<Rightarrow> m\<lparr>closure := s, console := console m @ out\<rparr>)"
| "step c m (WorkerResumed i) = m\<lparr>closure := workerResumed c i (closure m)\<rparr>"
| "step c m MainResumed =
     (if returned m = None
      then (case mainResumed c (closure m) of (s, r) \<Rightarrow> m\<lparr>closure := s, returned := r\<rparr>)
      else m)"

definition run :: "call \<Rightarrow> 'a event list \<Rightarrow> 'a engine" where
  "run c evs = foldl (step c) (start c) evs"

text \<open>
  The value that the promise of the call is fulfilled with, as it is after the events of
  the run: \<open>None\<close> while the promise is pending, and when it is rejected.
\<close>

definition fulfilled :: "'a engine \<Rightarrow> 'a ProcessUrlsResult option" where
  "fulfilled m =
     (case returned m of
        Some (Fresh r) \<Rightarrow> Some r
      | Some (Shared st) \<Rightarrow>
          Some \<lparr>successfulResults = successfulResults (closure m),
                failedTasks = failedTasks (closure m), stats = st\<rparr>
      | _ \<Rightarrow> None)"

definition processUrlsConcurrentlyInTabs ::
  "call \<Rightarrow> 'a event list \<Rightarrow> 'a ProcessUrlsResult option" where
  "processUrlsConcurrentlyInTabs c evs = fulfilled (run c evs)"

text \<open>The task invocations in flight: the calls suspended at \<^verbatim>\<open>await taskFunction(...)\<close>.\<close>

fun awaitsTask :: "exec \<Rightarrow> bool" where
  "awaitsTask (AwaitTask u a n) = True"
| "awaitsTask _ = False"

definition inFlight :: "('a, 'z) common_scheme \<Rightarrow> nat" where
  "inFlight s = length (filter awaitsTask (execs s))"

section \<open>The basic processor of src/lib/utils.ts\<close>

text \<open>
  The second \<^verbatim>\<open>processUrlsConcurrentlyInTabs\<close>, of src/lib/utils.ts, embedded the same
  way. Its closure has no retry counter, it has no \<^verbatim>\<open>isRetryable\<close> option (that field of
  \<open>call\<close> is not read) and it returns \<^verbatim>\<open>{ successfulResults, failedTasks }\<close>.
\<close>

type_synonym 'a basic_state = "'a common"

text \<open>
  How the promise of the call has settled: \<open>BasicFresh r\<close>, the early return of line 172;
  \<open>BasicShared\<close>, the return of line 225, an object with the arrays of the closure;
  \<open>BasicFailed e\<close>, the function has thrown \<open>e\<close>.
\<close>

datatype 'a basic_settlement = BasicFresh "'a accum" | BasicShared | BasicFailed error

record 'a basic_engine =
  basic_closure :: "'a basic_state"
  basic_console :: "string list"
  basic_returned :: "'a basic_settlement option"

text \<open>utils.ts, lines 151-153.\<close>

definition basic_progress ::
  "call \<Rightarrow> nat \<Rightarrow> error option \<Rightarrow> 'a basic_state \<Rightarrow> 'a basic_state" where
  "basic_progress c k err s =
     (if onProgress c \<and> \<not> operationAborted err
      then set_exec k AwaitOnProgress s
      else set_exec k Returned s)"

text \<open>utils.ts, lines 137-148.\<close>

definition basic_complete ::
  "call \<Rightarrow> nat \<Rightarrow> string \<Rightarrow> error option \<Rightarrow> (error + 'a list) option \<Rightarrow> 'a basic_state
     \<Rightarrow> 'a basic_state" where
  "basic_complete c k u err taskResult s =
     (let s1 = s\<lparr>completedCount := completedCount s + 1\<rparr>
      in case err of
           Some e \<Rightarrow>
             if message e \<noteq> ''Operation aborted'' then
               (let s2 = s1\<lparr>failedTasks := failedTasks s1 @ [(u, e)]\<rparr>
                in if onError c then set_exec k (AwaitOnError e) s2
                   else basic_progress c k err s2)
             else basic_progress c k err s1
         | None \<Rightarrow>
             (case taskResult of
                Some (Inr rs) \<Rightarrow>
                  basic_progress c k err
                    (if length rs > 0 then s1\<lparr>successfulResults := successfulResults s1 @ rs\<rparr>
                     else s1)
              | Some (Inl x) \<Rightarrow> reject c k x s1
              | None \<Rightarrow> basic_progress c k err s1))"

text \<open>utils.ts, lines 84-95, the head of the retry loop.\<close>

definition basic_attempt ::
  "call \<Rightarrow> nat \<Rightarrow> string \<Rightarrow> nat \<Rightarrow> nat \<Rightarrow> error option \<Rightarrow> 'a basic_state
     \<Rightarrow> 'a basic_state" where
  "basic_attempt c k u a n err s =
     (if a \<le> maxRetries c then
        (if aborted s
         then basic_complete c k u (Some (Error ''Error'' ''Operation aborted'')) None s
         else set_exec k (AwaitTask u a (n + 1)) s)
      else basic_complete c k u err None s)"

definition basic_executeTaskWithRetries ::
  "call \<Rightarrow> string \<Rightarrow> 'a basic_state \<Rightarrow> 'a basic_state" where
  "basic_executeTaskWithRetries c u s =
     basic_attempt c (length (execs s)) u 0 0 None (s\<lparr>execs := execs s @ [NotStarted]\<rparr>)"

text \<open>
  utils.ts, lines 95-133. Every error is retried while \<^verbatim>\<open>attempts <= maxRetries\<close>; after
  the final attempt there is no \<^verbatim>\<open>break\<close>, the loop condition ends the loop. When the
  \<^verbatim>\<open>retryDelayMs\<close> function throws (line 105), the call throws.
\<close>

definition basic_taskSettled ::
  "call \<Rightarrow> nat \<Rightarrow> 'a outcome \<Rightarrow> 'a basic_state \<Rightarrow> 'a basic_state" where
  "basic_taskSettled c k out s =
     (case exec_at s k of
        Some (AwaitTask u a n) \<Rightarrow>
          (case out of
             Resolved rs \<Rightarrow> basic_complete c k u None (Some (Inr rs)) s
           | Oversized x \<Rightarrow> basic_complete c k u None (Some (Inl x)) s
           | Rejected e \<Rightarrow>
               (let a' = a + 1 in
                if a' \<le> maxRetries c then
                  (case delay (retryDelayMs c) a' of
                     Inl x \<Rightarrow> reject c k x s
                   | Inr d \<Rightarrow>
                       if positive d then
                         set_exec k (AwaitDelay u a' e n (setTimeout d))
                           (s\<lparr>abortListeners :=
                                (if signal c = None then abortListeners s
                                 else abortListeners s @ [k])\<rparr>)
                       else basic_attempt c k u a' n (Some e) s)
                else basic_attempt c k u a' n (Some e) s))
      | _ \<Rightarrow> s)"

definition basic_timerFired :: "call \<Rightarrow> nat \<Rightarrow> 'a basic_state \<Rightarrow> 'a basic_state" where
  "basic_timerFired c k s =
     (case exec_at s k of
        Some (AwaitDelay u a e n d) \<Rightarrow>
          basic_attempt c k u a n (Some e) (s\<lparr>abortListeners := remove1 k (abortListeners s)\<rparr>)
      | _ \<Rightarrow> s)"

definition basic_abortDuringDelay :: "call \<Rightarrow> 'a basic_state \<Rightarrow> nat \<Rightarrow> 'a basic_state" where
  "basic_abortDuringDelay c s k =
     (case exec_at s k of
        Some (AwaitDelay u a e n d) \<Rightarrow>
          basic_complete c k u (Some (Error ''Error'' ''Operation aborted during retry delay''))
            None s
      | _ \<Rightarrow> s)"

definition basic_abort :: "call \<Rightarrow> 'a basic_state \<Rightarrow> 'a basic_state" where
  "basic_abort c s =
     (if signal c = None \<or> aborted s then s
      else foldl (basic_abortDuringDelay c) (s\<lparr>aborted := True, abortListeners := []\<rparr>)
             (abortListeners s))"

definition basic_callbackSettled ::
  "call \<Rightarrow> nat \<Rightarrow> bool \<Rightarrow> 'a basic_state \<Rightarrow> 'a basic_state \<times> string list" where
  "basic_callbackSettled c k threw s =
     (case exec_at s k of
        Some (AwaitOnError e) \<Rightarrow>
          (basic_progress c k (Some e) s, if threw then [''Error in onError handler:''] else [])
      | Some AwaitOnProgress \<Rightarrow>
          (set_exec k Returned s, if threw then [''Error in onProgress handler:''] else [])
      | _ \<Rightarrow> (s, []))"

text \<open>utils.ts, lines 181-190.\<close>

definition basic_workerLoop :: "call \<Rightarrow> nat \<Rightarrow> 'a basic_state \<Rightarrow> 'a basic_state" where
  "basic_workerLoop c i s =
     (case urlQueue s of
        [] \<Rightarrow> set_worker i WorkerDone s
      | u # rest \<Rightarrow>
          if aborted s then set_worker i WorkerDone s
          else (let s1 = s\<lparr>urlQueue := rest\<rparr>
                in if u = [] then set_worker i WorkerDone s1
                   else set_worker i (Awaiting (length (execs s1)))
                          (basic_executeTaskWithRetries c u s1)))"

definition basic_workerResumed :: "call \<Rightarrow> nat \<Rightarrow> 'a basic_state \<Rightarrow> 'a basic_state" where
  "basic_workerResumed c i s =
     (if mode c = Threads then
        (case worker_at s i of
           Some (Awaiting k) \<Rightarrow>
             (case exec_at s k of
                Some Returned \<Rightarrow> basic_workerLoop c i s
              | Some (Threw e) \<Rightarrow>
                  (set_worker i (WorkerFailed e) s)
                    \<lparr>allRejected := (if allRejected s = None then Some e else allRejected s)\<rparr>
              | _ \<Rightarrow> s)
         | _ \<Rightarrow> s)
      else s)"

text \<open>utils.ts, lines 200-210.\<close>

definition basic_startChunk ::
  "call \<Rightarrow> 'a basic_state \<Rightarrow> 'a basic_state \<times> 'a basic_settlement option" where
  "basic_startChunk c s =
     (if chunkStart s < totalUrlsToProcess c then
        (if aborted s then (s, Some BasicShared)
         else (foldl (\<lambda>t u. (basic_executeTaskWithRetries c u t)
                               \<lparr>chunk := chunk t @ [length (execs t)]\<rparr>)
                 (s\<lparr>chunk := [], allRejected := None\<rparr>)
                 (take (maxConcurrency c) (drop (chunkStart s) (urlsToProcess c))), None))
      else (s, Some BasicShared))"

text \<open>utils.ts, lines 197 and 211-216.\<close>

definition basic_mainResumed ::
  "call \<Rightarrow> 'a basic_state \<Rightarrow> 'a basic_state \<times> 'a basic_settlement option" where
  "basic_mainResumed c s =
     (case mode c of
        Threads \<Rightarrow>
          (case allRejected s of
             Some e \<Rightarrow> (s, Some (BasicFailed e))
           | None \<Rightarrow>
               if list_all (\<lambda>w. w = WorkerDone) (workers s) then (s, Some BasicShared)
               else (s, None))
      | Portions \<Rightarrow>
          if allRejected s \<noteq> None \<or> list_all (\<lambda>k. exec_at s k = Some Returned) (chunk s)
          then basic_startChunk c (s\<lparr>chunkStart := chunkStart s + maxConcurrency c\<rparr>)
          else (s, None))"

text \<open>utils.ts, lines 72-74 and 157-218, up to the first \<^verbatim>\<open>await\<close> of the main function.\<close>

definition basic_initial :: "call \<Rightarrow> 'a basic_state" where
  "basic_initial c =
     \<lparr>successfulResults = [], failedTasks = [],
      aborted = (signal c = Some True), abortListeners = [], urlQueue = [],
      chunkStart = 0, execs = [], workers = [], chunk = [], allRejected = None,
      completedCount = 0\<rparr>"

definition basic_start :: "call \<Rightarrow> 'a basic_engine" where
  "basic_start c =
     (if signal c = Some True then
        \<lparr>basic_closure = basic_initial c, basic_console = [],
         basic_returned = Some (BasicFresh
           \<lparr>successfulResults = [],
            failedTasks = [(''N/A'', Error ''Error'' ''Operation aborted before starting'')]\<rparr>)\<rparr>
      else case mode c of
             Threads \<Rightarrow>
               (let actualWorkersToLaunch = min (maxConcurrency c) (totalUrlsToProcess c)
                in \<lparr>basic_closure =
                      foldl (\<lambda>t i. basic_workerLoop c i t)
                        ((basic_initial c)\<lparr>urlQueue := urlsToProcess c,
                                           workers := replicate actualWorkersToLaunch Idle\<rparr>)
                        [0..<actualWorkersToLaunch],
                    basic_console = [], basic_returned = None\<rparr>)
           | Portions \<Rightarrow>
               (case basic_startChunk c (basic_initial c) of
                  (s, r) \<Rightarrow> \<lparr>basic_closure = s, basic_console = [], basic_returned = r\<rparr>))"

fun basic_step :: "call \<Rightarrow> 'a basic_engine \<Rightarrow> 'a event \<Rightarrow> 'a basic_engine" where
  "basic_step c m (TaskSettled k out) =
     m\<lparr>basic_closure := basic_taskSettled c k out (basic_closure m)\<rparr>"
| "basic_step c m (TimerFired k) = m\<lparr>basic_closure := basic_timerFired c k (basic_closure m)\<rparr>"
| "basic_step c m Abort = m\<lparr>basic_closure := basic_abort c (basic_closure m)\<rparr>"
| "basic_step c m (CallbackSettled k threw) =
     (case basic_callbackSettled c k threw (basic_closure m) of
        (s, out) \<Rightarrow> m\<lparr>basic_closure := s, basic_console := basic_console m @ out\<rparr>)"
| "basic_step c m (WorkerResumed i) =
     m\<lparr>basic_closure := basic_workerResumed c i (basic_closure m)\<rparr>"
| "basic_step c m MainResumed =
     (if basic_returned m = None
      then (case basic_mainResumed c (basic_closure m) of
              (s, r) \<Rightarrow> m\<lparr>basic_closure := s, basic_returned := r\<rparr>)
      else m)"

definition basic_run :: "call \<Rightarrow> 'a event list \<Rightarrow> 'a basic_engine" where
  "basic_run c evs = foldl (basic_step c) (basic_start c) evs"

text \<open>The value that the promise of the call is fulfilled with, as it is after the run.\<close>

definition basic_fulfilled :: "'a basic_engine \<Rightarrow> 'a accum option" where
  "basic_fulfilled m =
     (case basic_returned m of
        Some (BasicFresh r) \<Rightarrow> Some r
      | Some BasicShared \<Rightarrow>
          Some \<lparr>successfulResults = successfulResults (basic_closure m),
                failedTasks = failedTasks (basic_closure m)\<rparr>
      | _ \<Rightarrow> None)"

definition basic_processUrlsConcurrentlyInTabs ::
  "call \<Rightarrow> 'a event list \<Rightarrow> 'a accum option" where
  "basic_processUrlsConcurrentlyInTabs c evs = basic_fulfilled (basic_run c evs)"

section \<open>Notions used in the properties\<close>

text \<open>
  The same event with a callback that does not throw: for \<^verbatim>\<open>onProgress\<close> and
  \<^verbatim>\<open>onError\<close> that do nothing every awaited callback settles this way.
\<close>

fun no_throw :: "'a event \<Rightarrow> 'a event" where
  "no_throw (CallbackSettled k threw) = CallbackSettled k False"
| "no_throw ev = ev"

text \<open>
  The retries of the calls of \<^verbatim>\<open>executeTaskWithRetries\<close> that have left their retry loop:
  for each, its task invocations but the first (\<open>n - 1\<close> is 0 for \<open>n = 0\<close>). A url that was
  never passed to \<^verbatim>\<open>executeTaskWithRetries\<close> has no task invocation and no entry in
  \<open>itemLog\<close>.
\<close>

definition retriesOf :: "(string \<times> nat) list \<Rightarrow> nat" where
  "retriesOf items = sum_list (map (\<lambda>(u, n). n - 1) items)"

text \<open>The task invocations made so far by a call that is suspended in its retry loop.\<close>

fun invocations :: "exec \<Rightarrow> nat" where
  "invocations (AwaitTask u a n) = n"
| "invocations (AwaitDelay u a e n d) = n"
| "invocations _ = 0"

text \<open>No call of \<^verbatim>\<open>executeTaskWithRetries\<close> has thrown: no promise of a call is rejected.\<close>

fun isThrew :: "exec \<Rightarrow> bool" where
  "isThrew (Threw e) = True"
| "isThrew _ = False"

definition noCallRejected :: "('a, 'z) common_scheme \<Rightarrow> bool" where
  "noCallRejected s = list_all (\<lambda>e. \<not> isThrew e) (execs s)"

text \<open>
  The invariant behind the retry count. In the retry loop \<^verbatim>\<open>attempts\<close> is at most
  \<^verbatim>\<open>maxRetries\<close>; while the task runs it has been invoked \<^verbatim>\<open>attempts + 1\<close> times, during
  the delay \<^verbatim>\<open>attempts\<close> times. \<open>pendingRetries\<close> is the part of \<^verbatim>\<open>totalRetriesMade\<close> that
  belongs to a call still in its loop.
\<close>

fun okExec :: "call \<Rightarrow> exec \<Rightarrow> bool" where
  "okExec c (AwaitTask u a n) = (n = a + 1 \<and> a \<le> maxRetries c)"
| "okExec c (AwaitDelay u a e n d) = (n = a \<and> a \<le> maxRetries c)"
| "okExec c _ = True"

fun pendingRetries :: "exec \<Rightarrow> nat" where
  "pendingRetries (AwaitTask u a n) = a"
| "pendingRetries (AwaitDelay u a e n d) = a"
| "pendingRetries _ = 0"

definition retryInv :: "call \<Rightarrow> 'a state \<Rightarrow> bool" where
  "retryInv c s =
     (list_all (okExec c) (execs s) \<and>
      list_all (\<lambda>(u, n). n \<le> maxRetries c + 1) (itemLog s) \<and>
      (\<not> aborted s \<and> noCallRejected s \<longrightarrow>
         state.totalRetriesMade s =
           retriesOf (itemLog s) + sum_list (map pendingRetries (execs s))))"

text \<open>
  Where a call of \<^verbatim>\<open>executeTaskWithRetries\<close> is after the code of lines 207-233 has run
  up to its first \<^verbatim>\<open>await\<close> (see \<open>complete_execs\<close>). \<open>pushError taskResult\<close> is what
  \<^verbatim>\<open>push(...taskResult)\<close> throws, if it does.
\<close>

definition pushError :: "(error + 'a list) option \<Rightarrow> error option" where
  "pushError taskResult = (case taskResult of Some (Inl x) \<Rightarrow> Some x | _ \<Rightarrow> None)"

definition afterLoop :: "call \<Rightarrow> error option \<Rightarrow> error option \<Rightarrow> exec" where
  "afterLoop c err thrown =
     (case err of
        None \<Rightarrow>
          (case thrown of
             Some x \<Rightarrow> Threw x
           | None \<Rightarrow> if onProgress c then AwaitOnProgress else Returned)
      | Some e \<Rightarrow>
          if message e = ''Operation aborted'' then Returned
          else if onError c then AwaitOnError e
          else if onProgress c then AwaitOnProgress
          else Returned)"

text \<open>
  The promises that are awaited. A call of \<^verbatim>\<open>executeTaskWithRetries\<close> has ended when it
  has returned or thrown. In 'threads' mode every call that has not ended is awaited by a
  worker. In 'portions' mode, as long as no call has thrown, every call that has not ended
  is of the current chunk, and \<^verbatim>\<open>Promise.all\<close> is not rejected.
\<close>

fun ended :: "exec \<Rightarrow> bool" where
  "ended Returned = True"
| "ended (Threw e) = True"
| "ended _ = False"

definition linked :: "call \<Rightarrow> ('a, 'z) common_scheme \<Rightarrow> bool" where
  "linked c s =
     ((mode c = Threads \<longrightarrow>
         chunk s = [] \<and>
         (\<forall>k < length (execs s). \<not> ended (execs s ! k) \<longrightarrow> Awaiting k \<in> set (workers s))) \<and>
      (mode c = Portions \<longrightarrow>
         workers s = [] \<and>
         (noCallRejected s \<longrightarrow>
            allRejected s = None \<and>
            (\<forall>k < length (execs s). \<not> ended (execs s ! k) \<longrightarrow> k \<in> set (chunk s)))))"

text \<open>Nothing of the call is left to run: every call has returned, every worker is done.\<close>

definition quiescent :: "('a, 'z) common_scheme \<Rightarrow> bool" where
  "quiescent s =
     (list_all (\<lambda>e. e = Returned) (execs s) \<and> list_all (\<lambda>w. w = WorkerDone) (workers s))"

text \<open>
  The closure, the engine and the result of src/lib/concurrency.core.ts seen as those of
  src/lib/utils.ts: the retry counter, the ghost log and the statistics are dropped.
\<close>

definition basic_of :: "'a state \<Rightarrow> 'a basic_state" where
  "basic_of s =
     \<lparr>successfulResults = successfulResults s, failedTasks = failedTasks s,
      aborted = aborted s, abortListeners = abortListeners s, urlQueue = urlQueue s,
      chunkStart = chunkStart s, execs = execs s, workers = workers s, chunk = chunk s,
      allRejected = allRejected s, completedCount = completedCount s\<rparr>"

definition basic_result :: "'a ProcessUrlsResult \<Rightarrow> 'a accum" where
  "basic_result r = \<lparr>successfulResults = successfulResults r, failedTasks = failedTasks r\<rparr>"

fun basic_settlement_of :: "'a settlement \<Rightarrow> 'a basic_settlement" where
  "basic_settlement_of (Fresh r) = BasicFresh (basic_result r)"
| "basic_settlement_of (Shared st) = BasicShared"
| "basic_settlement_of (Failed e) = BasicFailed e"

definition basic_engine_of :: "'a engine \<Rightarrow> 'a basic_engine" where
  "basic_engine_of m =
     \<lparr>basic_closure = basic_of (closure m), basic_console = console m,
      basic_returned = map_option basic_settlement_of (returned m)\<rparr>"

text \<open>Every error thrown by the task has the name \<^verbatim>\<open>'TimeoutError'\<close>.\<close>

fun timeoutOrOther :: "'a event \<Rightarrow> bool" where
  "timeoutOrOther (TaskSettled k (Rejected e)) = (name e = ''TimeoutError'')"
| "timeoutOrOther ev = True"

definition timeoutsOnly :: "'a event list \<Rightarrow> bool" where
  "timeoutsOnly evs = list_all timeoutOrOther evs"

text \<open>A settlement with another \<^verbatim>\<open>totalUrlsProvided\<close> in its statistics.\<close>

fun provided :: "int \<Rightarrow> 'a settlement \<Rightarrow> 'a settlement" where
  "provided n (Fresh r) = Fresh (r\<lparr>stats := (stats r)\<lparr>totalUrlsProvided := n\<rparr>\<rparr>)"
| "provided n (Shared st) = Shared (st\<lparr>totalUrlsProvided := n\<rparr>)"
| "provided n (Failed e) = Failed e"

text \<open>
  A return by line 291, with \<^verbatim>\<open>totalUrlsAttempted = totalUrlsToProcess\<close>: the only return
  there is unless the signal is aborted at the call.
\<close>

definition lateReturn :: "call \<Rightarrow> 'a settlement option \<Rightarrow> bool" where
  "lateReturn c r =
     ((\<forall>x. r \<noteq> Some (Fresh x)) \<and>
      (\<forall>st. r = Some (Shared st) \<longrightarrow> totalUrlsAttempted st = int (totalUrlsToProcess c)))"

text \<open>
  When the call has returned by line 291, the signal is not aborted and no call of
  \<^verbatim>\<open>executeTaskWithRetries\<close> has thrown, nothing of the call is left to run, the
  statistics returned are those of the closure as it is, and in 'portions' mode the loop
  variable has passed the last url.
\<close>

definition atReturn :: "call \<Rightarrow> 'a engine \<Rightarrow> bool" where
  "atReturn c m =
     (\<forall>st. returned m = Some (Shared st) \<longrightarrow>
           \<not> aborted (closure m) \<longrightarrow> noCallRejected (closure m) \<longrightarrow>
           quiescent (closure m) \<and> st = finalStats c (closure m) \<and>
           (mode c = Portions \<longrightarrow> totalUrlsToProcess c \<le> chunkStart (closure m)))"

text \<open>
  The invariant behind the completion count, for a run that is not cancelled and in which
  no call of \<^verbatim>\<open>executeTaskWithRetries\<close> has thrown: every url to process is completed, or
  in the retry loop of a call, or still to be taken (from the queue in 'threads' mode, by
  a later chunk in 'portions' mode). In 'threads' mode, as long as the queue is not empty
  no worker has finished, provided no url is the empty string.
\<close>

fun inLoop :: "exec \<Rightarrow> nat" where
  "inLoop (AwaitTask u a n) = 1"
| "inLoop (AwaitDelay u a e n d) = 1"
| "inLoop _ = 0"

definition remaining :: "call \<Rightarrow> 'a state \<Rightarrow> nat" where
  "remaining c s =
     (case mode c of
        Threads \<Rightarrow> length (urlQueue s)
      | Portions \<Rightarrow>
          totalUrlsToProcess c - min (totalUrlsToProcess c) (chunkStart s + maxConcurrency c))"

definition countInv :: "call \<Rightarrow> 'a state \<Rightarrow> bool" where
  "countInv c s =
     (\<not> aborted s \<and> noCallRejected s \<longrightarrow>
        completedCount s + sum_list (map inLoop (execs s)) + remaining c s =
          totalUrlsToProcess c \<and>
        (mode c = Threads \<longrightarrow>
           [] \<notin> set (urlQueue s) \<and>
           (urlQueue s \<noteq> [] \<longrightarrow> workers s \<noteq> [] \<and> WorkerDone \<notin> set (workers s))))"

text \<open>From \<open>s\<close> to \<open>s'\<close> the calls that have ended are as they were.\<close>

definition endedKept :: "('a, 'z) common_scheme \<Rightarrow> ('a, 'z) common_scheme \<Rightarrow> bool" where
  "endedKept s s' =
     (length (execs s) \<le> length (execs s') \<and>
      (\<forall>j < length (execs s). ended (execs s ! j) \<longrightarrow> execs s' ! j = execs s ! j))"

text \<open>There are at most \<^verbatim>\<open>maxConcurrency\<close> workers, and as many calls in a chunk.\<close>

definition sized :: "call \<Rightarrow> ('a, 'z) common_scheme \<Rightarrow> bool" where
  "sized c s = (length (workers s) \<le> maxConcurrency c \<and> length (chunk s) \<le> maxConcurrency c)"

section \<open>Properties\<close>

lemmas model_defs = run_def start_def workerLoop_def executeTaskWithRetries_def attempt_def
  complete_def progress_def taskSettled_def timerFired_def abort_def abortDuringDelay_def
  callbackSettled_def workerResumed_def mainResumed_def startChunk_def finalStats_def
  exec_at_def set_exec_def worker_at_def set_worker_def reject_def delay_def multiply_def
  positive_def setTimeout_def urlsToProcess_def uniqueUrls_def totalUrlsToProcess_def
  initialUrlCount_def processUrlsConcurrentlyInTabs_def fulfilled_def default_call_def
  initial_def operationAborted_def

subsection \<open>Doubles\<close>

text \<open>An integer of magnitude below \<open>2 ^ 53\<close> is a double.\<close>

lemma roundHalfEven_of_int [simp]: "roundHalfEven (of_int m) = m"
  by (simp add: roundHalfEven_def)

lemma toDouble_of_int:
  fixes k :: int
  assumes "\<bar>k\<bar> < 2 ^ 53"
  shows "toDouble (of_int k) = Num (of_int k)"
proof (cases "k = 0")
  case True
  then show ?thesis by (simp add: toDouble_def)
next
  case False
  define x :: real where "x = of_int k"
  define e where "e = \<lfloor>log 2 \<bar>x\<bar>\<rfloor>"
  have x1: "1 \<le> \<bar>x\<bar>" using False by (simp add: x_def flip: of_int_abs)
  have x2: "\<bar>x\<bar> < 2 ^ 53" using assms unfolding x_def
    by (metis of_int_abs of_int_less_numeral_power_cancel_iff)
  have "0 \<le> log 2 \<bar>x\<bar>" using x1 by simp
  then have e0: "0 \<le> e" by (simp add: e_def)
  have "log 2 \<bar>x\<bar> < 53"
    using x1 x2 by (simp add: log_less_iff powr_realpow)
  then have e1: "e \<le> 52" unfolding e_def by linarith
  define j where "j = nat (52 - e)"
  have q: "(2::real) powr (of_int (max e (- 1022)) - 52) = 1 / 2 ^ j"
  proof -
    have "of_int (max e (- 1022)) - (52::real) = - real j"
      using e0 e1 by (simp add: j_def max_def)
    then show ?thesis by (simp add: powr_minus powr_realpow divide_inverse)
  qed
  have div: "x / (1 / 2 ^ j) = real_of_int (k * 2 ^ j)" by (simp add: x_def)
  have r: "of_int (roundHalfEven (x / (1 / 2 ^ j))) * (1 / 2 ^ j) = x"
    unfolding div roundHalfEven_of_int by (simp add: x_def)
  have big: "\<not> 2 powr 1024 \<le> \<bar>x\<bar>"
  proof -
    have "(2::real) ^ 53 \<le> 2 ^ 1024" by (rule power_increasing) simp_all
    then show ?thesis using x2 by (simp add: powr_realpow)
  qed
  have "x \<noteq> 0" using x1 by auto
  then show ?thesis
    using q r big unfolding toDouble_def Let_def x_def [symmetric] e_def [symmetric]
    by simp
qed

lemma toDouble_numeral [simp]:
  "numeral w < (9007199254740992::int) \<Longrightarrow> toDouble (numeral w) = Num (numeral w)"
  using toDouble_of_int [of "numeral w"] by simp

lemma toDouble_0 [simp]: "toDouble 0 = Num 0"
  by (simp add: toDouble_def)

lemma toDouble_1 [simp]: "toDouble 1 = Num 1"
  using toDouble_of_int [of 1] by simp

text \<open>
  Beyond \<open>2 ^ 53\<close> the product is rounded: \<^verbatim>\<open>9007199254740991 * 3\<close> is
  \<^verbatim>\<open>27021597764222972\<close> in JavaScript, and the exact product is 27021597764222973.
\<close>

lemma rounded_product: "multiply (Num 9007199254740991) 3 = Num 27021597764222972"
proof -
  have l: "\<lfloor>log 2 (27021597764222973::real)\<rfloor> = 54"
  proof -
    have "54 \<le> log 2 (27021597764222973::real)"
      by (subst le_log_iff) (simp_all add: powr_realpow [where n = 54, simplified])
    moreover have "log 2 (27021597764222973::real) < 55"
      by (subst log_less_iff) (simp_all add: powr_realpow [where n = 55, simplified])
    ultimately show ?thesis by linarith
  qed
  have q: "(2::real) powr 2 = 4" by (simp add: powr_numeral)
  have f: "\<lfloor>(27021597764222973::real) / 4\<rfloor> = 6755399441055743" by linarith
  have big: "\<not> (2::real) powr 1024 \<le> 27021597764222972"
  proof -
    have "(2::real) ^ 55 \<le> 2 ^ 1024" by (rule power_increasing) simp_all
    then show ?thesis by (simp add: powr_realpow [where n = 1024, simplified])
  qed
  show ?thesis
    using big by (simp add: multiply_def toDouble_def l q roundHalfEven_def f Let_def)
qed

subsection \<open>Abort before the start\<close>

lemma step_after_early_return:
  "signal c = Some True \<Longrightarrow> step c (start c) ev = start c"
  by (cases ev)
     (simp_all add: start_def initial_def taskSettled_def timerFired_def abort_def
        callbackSettled_def workerResumed_def exec_at_def worker_at_def)

lemma run_after_early_return:
  "signal c = Some True \<Longrightarrow> foldl (step c) (start c) evs = start c"
  by (induction evs) (simp_all add: step_after_early_return)

text \<open>
  C7. When the signal is already aborted at the call, the call returns at once, and
  whatever happens afterwards its result has no successful results, the one failure
  \<^verbatim>\<open>{ url: 'N/A', error: Error('Operation aborted before starting') }\<close>, and statistics
  that are zero except \<^verbatim>\<open>totalUrlsProvided\<close>, the length of \<^verbatim>\<open>urls\<close>. The promise of the
  call is fulfilled with that result: the call does not throw.
\<close>

theorem abort_before_start:
  assumes "signal c = Some True"
  shows "processUrlsConcurrentlyInTabs c evs =
           Some \<lparr>successfulResults = [],
                 failedTasks = [(''N/A'', Error ''Error'' ''Operation aborted before starting'')],
                 stats = \<lparr>totalUrlsProvided = int (length (urls c)), totalUrlsAttempted = 0,
                          totalSuccess = 0, totalFailed = 0, totalRetriesMade = 0\<rparr>\<rparr>"
  using assms
  by (simp add: processUrlsConcurrentlyInTabs_def run_def run_after_early_return)
     (simp add: start_def initialUrlCount_def fulfilled_def)

theorem abort_before_start_witness:
  "processUrlsConcurrentlyInTabs
     ((default_call [''a'', ''b'', ''a''] 2)\<lparr>signal := Some True\<rparr>)
     [TaskSettled 0 (Resolved [1::nat]), Abort, MainResumed] =
   Some \<lparr>successfulResults = [],
         failedTasks = [(''N/A'', Error ''Error'' ''Operation aborted before starting'')],
         stats = \<lparr>totalUrlsProvided = 3, totalUrlsAttempted = 0,
                  totalSuccess = 0, totalFailed = 0, totalRetriesMade = 0\<rparr>\<rparr>"
  using abort_before_start [of "(default_call [''a'', ''b'', ''a''] 2)\<lparr>signal := Some True\<rparr>"
      "[TaskSettled 0 (Resolved [1::nat]), Abort, MainResumed]"]
  by (simp add: default_call_def)

subsection \<open>The retry delay\<close>

text \<open>
  C6 as stated fails: with the constant \<^verbatim>\<open>retryDelayMs = 500\<close> (the default) the timer
  after the second failed attempt of a url is set to 1000 ms, not to 500 ms.
\<close>

theorem constant_delay_counterexample:
  "retryDelayMs ((default_call [''a''] 1)\<lparr>maxRetries := 2\<rparr>) = Ms (Num 500) \<and>
   exec_at (closure (run ((default_call [''a''] 1)\<lparr>maxRetries := 2\<rparr>)
          [TaskSettled 0 (Rejected (Error ''TimeoutError'' ''t'')), TimerFired 0,
           TaskSettled 0 (Rejected (Error ''TimeoutError'' ''t'')) :: nat event])) 0 =
     Some (AwaitDelay ''a'' 2 (Error ''TimeoutError'' ''t'') 2 1000)"
  by (simp add: model_defs)

lemma multiply_exact:
  assumes "1 \<le> d * int n" and "d * int n \<le> 2147483647"
  shows "multiply (Num (of_int d)) n = Num (of_int (d * int n))"
proof -
  have "\<bar>d * int n\<bar> < 2 ^ 53" using assms by simp
  from toDouble_of_int [OF this] show ?thesis by (simp add: multiply_def)
qed

text \<open>
  C6, amended. An attempt of a call fails with a retryable error and retries are left;
  \<open>a + 1\<close> is the number of failed attempts so far. The delay \<open>t\<close> is: for a constant
  \<^verbatim>\<open>retryDelayMs = d\<close>, a whole number, \<open>d\<close> times the number of failed attempts; for a
  function \<open>f\<close>, what \<open>f\<close> returns for that number. When \<open>t\<close> is a whole number of
  milliseconds from 1 to 2147483647, the range of delays that \<^verbatim>\<open>setTimeout\<close> takes as they
  are, the call sleeps on a timer of \<open>t\<close> milliseconds: the product is exact there, and
  the next attempt waits for this timer (or for the abort signal).
\<close>

theorem retry_delay_slept:
  assumes "exec_at (closure m) k = Some (AwaitTask u a n)"
    and "isRetryable c e = Inr True" and "a + 1 \<le> maxRetries c"
    and "retryDelayMs c = Ms (Num (of_int d)) \<and> t = d * int (a + 1) \<or>
         retryDelayMs c = Fn f \<and> f (a + 1) = Inr (Num (of_int t))"
    and "1 \<le> t" and "t \<le> 2147483647"
  shows "exec_at (closure (step c m (TaskSettled k (Rejected e)))) k =
           Some (AwaitDelay u (a + 1) e n (nat t))"
proof -
  have "delay (retryDelayMs c) (a + 1) = Inr (Num (of_int t))"
    using assms(4)
  proof
    assume ms: "retryDelayMs c = Ms (Num (of_int d)) \<and> t = d * int (a + 1)"
    with assms(5,6) have "multiply (Num (of_int d)) (a + 1) = Num (of_int (d * int (a + 1)))"
      by (intro multiply_exact) simp_all
    with ms show ?thesis by (simp add: delay_def)
  next
    assume "retryDelayMs c = Fn f \<and> f (a + 1) = Inr (Num (of_int t))"
    then show ?thesis by (simp add: delay_def)
  qed
  moreover have "positive (Num (of_int t))"
    using assms(5) by (simp add: positive_def)
  moreover have "setTimeout (Num (of_int t)) = nat t"
    using assms(5,6) by (simp add: setTimeout_def)
  ultimately show ?thesis
    using assms(1-3)
    by (simp add: taskSettled_def exec_at_def set_exec_def Let_def split: if_splits)
qed

text \<open>
  Outside that range the timer is not the delay: for \<^verbatim>\<open>retryDelayMs = 3000000000\<close> the
  first retry waits on a timer of 1 millisecond.
\<close>

lemma timer_of_large_delay:
  "exec_at (closure (run ((default_call [''a''] 1)\<lparr>maxRetries := 1,
                                                   retryDelayMs := Ms (Num 3000000000)\<rparr>)
          [TaskSettled 0 (Rejected (Error ''TimeoutError'' ''t'')) :: nat event])) 0 =
     Some (AwaitDelay ''a'' 1 (Error ''TimeoutError'' ''t'') 1 1)"
  by (simp add: model_defs)

theorem retry_delay_slept_witness:
  "exec_at (closure
          (step ((default_call [''a''] 1)\<lparr>maxRetries := 2\<rparr>)
             (run ((default_call [''a''] 1)\<lparr>maxRetries := 2\<rparr>)
                [TaskSettled 0 (Rejected (Error ''TimeoutError'' ''t'')), TimerFired 0]
                :: nat engine)
             (TaskSettled 0 (Rejected (Error ''TimeoutError'' ''t''))))) 0 =
     Some (AwaitDelay ''a'' 2 (Error ''TimeoutError'' ''t'') 2 1000)"
  using retry_delay_slept [of
      "run ((default_call [''a''] 1)\<lparr>maxRetries := 2\<rparr>)
         [TaskSettled 0 (Rejected (Error ''TimeoutError'' ''t'')), TimerFired 0] :: nat engine"
      0 "''a''" 1 2
      "(default_call [''a''] 1)\<lparr>maxRetries := 2\<rparr>"
      "Error ''TimeoutError'' ''t''" 500 1000 "\<lambda>n. Inr NaN"]
  by (simp add: model_defs)

subsection \<open>Cancellation and the failure list\<close>

text \<open>
  C5 fails on the code. One url, one retry allowed, the default delay of 500 ms: the first
  attempt fails with a timeout, the signal is aborted during the delay. The url is in the
  returned \<^verbatim>\<open>failedTasks\<close>, with the error \<^verbatim>\<open>'Operation aborted during retry delay'\<close>,
  and it is counted in \<^verbatim>\<open>totalFailed\<close>.
\<close>

theorem abort_during_delay_recorded_as_failure:
  "processUrlsConcurrentlyInTabs
     ((default_call [''a''] 1)\<lparr>maxRetries := 1, signal := Some False\<rparr>)
     [TaskSettled 0 (Rejected (Error ''TimeoutError'' ''t'')), Abort, WorkerResumed 0,
      MainResumed :: nat event] =
   Some \<lparr>successfulResults = [],
         failedTasks = [(''a'', Error ''Error'' ''Operation aborted during retry delay'')],
         stats = \<lparr>totalUrlsProvided = 1, totalUrlsAttempted = 1, totalSuccess = 0,
                  totalFailed = 1, totalRetriesMade = 1\<rparr>\<rparr>"
  by (simp add: model_defs)



subsection \<open>The completion count\<close>

text \<open>
  C1 fails on the code. In 'threads' mode \<^verbatim>\<open>if (!url) break;\<close> ends the worker that takes
  the empty string from the queue: the url counts in \<^verbatim>\<open>totalUrlsAttempted\<close> and is never
  completed. With the empty string as the only url and no cancellation the call returns
  \<^verbatim>\<open>totalUrlsAttempted = 1\<close> and \<^verbatim>\<open>totalSuccess = totalFailed = 0\<close>. Without an empty
  url, and when no call of \<^verbatim>\<open>executeTaskWithRetries\<close> throws, the count holds
  (\<open>completion_count\<close> below).
\<close>

theorem empty_url_not_counted:
  "processUrlsConcurrentlyInTabs (default_call [''''] 1) [MainResumed :: nat event] =
   Some \<lparr>successfulResults = [], failedTasks = [],
         stats = \<lparr>totalUrlsProvided = 1, totalUrlsAttempted = 1, totalSuccess = 0,
                  totalFailed = 0, totalRetriesMade = 0\<rparr>\<rparr>"
  by (simp add: model_defs)

subsection \<open>Bounded concurrency\<close>

text \<open>
  C2 fails on the code. 'portions' mode, four urls and \<^verbatim>\<open>maxConcurrency = 2\<close>: the first
  chunk starts the tasks of \<^verbatim>\<open>a\<close> and \<^verbatim>\<open>b\<close>. The task of \<^verbatim>\<open>a\<close> resolves with an array that
  \<^verbatim>\<open>push(...taskResult)\<close> cannot take, so the call for \<^verbatim>\<open>a\<close> throws and
  \<^verbatim>\<open>Promise.all(promises)\<close> rejects while the task of \<^verbatim>\<open>b\<close> still runs. The \<^verbatim>\<open>catch\<close> of
  line 272 logs, and the loop starts the chunk of \<^verbatim>\<open>c\<close> and \<^verbatim>\<open>d\<close>: three task invocations
  are in flight. In 'threads' mode, and as long as no call throws, the bound holds
  (\<open>bounded_unless_rejected\<close> below).
\<close>

theorem concurrency_exceeded_after_rejected_call:
  "inFlight (closure (run ((default_call [''a'', ''b'', ''c'', ''d''] 2)\<lparr>mode := Portions\<rparr>)
      [TaskSettled 0 (Oversized (Error ''RangeError'' ''Maximum call stack size exceeded'')),
       MainResumed :: nat event])) = 3 \<and>
   execs (closure (run ((default_call [''a'', ''b'', ''c'', ''d''] 2)\<lparr>mode := Portions\<rparr>)
      [TaskSettled 0 (Oversized (Error ''RangeError'' ''Maximum call stack size exceeded'')),
       MainResumed :: nat event])) =
     [Threw (Error ''RangeError'' ''Maximum call stack size exceeded''),
      AwaitTask ''b'' 0 1, AwaitTask ''c'' 0 1, AwaitTask ''d'' 0 1]"
  by (simp add: model_defs inFlight_def)

subsection \<open>What the call returns\<close>

lemma startChunk_lateReturn: "lateReturn c (snd (startChunk c s))"
  by (simp add: lateReturn_def startChunk_def finalStats_def)

lemma lateReturn_simps [simp]:
  "lateReturn c None"
  "lateReturn c (Some (Failed e))"
  "lateReturn c (Some (Shared (finalStats c s)))"
  by (simp_all add: lateReturn_def finalStats_def)

lemma mainResumed_lateReturn: "lateReturn c (snd (mainResumed c s))"
  by (simp add: mainResumed_def startChunk_lateReturn split: mode.splits option.splits)

lemma lateReturn_start: "signal c \<noteq> Some True \<Longrightarrow> lateReturn c (returned (start c))"
  by (simp add: start_def Let_def case_prod_beta startChunk_lateReturn split: mode.splits)

lemma lateReturn_step:
  "lateReturn c (returned m) \<Longrightarrow> lateReturn c (returned (step c m ev))"
  using mainResumed_lateReturn [of c "closure m"]
  by (cases ev) (simp_all add: case_prod_beta)

lemma lateReturn_run:
  "signal c \<noteq> Some True \<Longrightarrow> lateReturn c (returned (run c evs))"
  unfolding run_def
  by (induction evs rule: rev_induct) (simp_all add: lateReturn_start lateReturn_step)

subsection \<open>Deduplication in 'threads' mode\<close>

lemma set_addAll: "set (addAll acc xs) = set acc \<union> set xs"
  by (induction xs arbitrary: acc) auto

lemma distinct_addAll: "distinct acc \<Longrightarrow> distinct (addAll acc xs)"
  by (induction xs arbitrary: acc) auto

lemma addAll_distinct: "distinct (acc @ xs) \<Longrightarrow> addAll acc xs = acc @ xs"
  by (induction xs arbitrary: acc) auto

lemma addAll_idem: "addAll [] (addAll [] xs) = addAll [] xs"
  by (simp add: addAll_distinct distinct_addAll)

lemma length_addAll: "length (addAll [] xs) = card (set xs)"
proof -
  have "card (set (addAll [] xs)) = length (addAll [] xs)"
    by (rule distinct_card) (simp add: distinct_addAll)
  then show ?thesis by (simp add: set_addAll)
qed

text \<open>The code run by an event reads \<^verbatim>\<open>urls\<close> only through \<^verbatim>\<open>urlsToProcess\<close>.\<close>

lemma urls_reject [simp]: "reject (c\<lparr>urls := x\<rparr>) = reject c"
  by (intro ext) (simp add: reject_def)

lemma urls_progress [simp]: "progress (c\<lparr>urls := x\<rparr>) = progress c"
  by (intro ext) (simp add: progress_def Let_def
      cong: option.case_cong exec.case_cong outcome.case_cong list.case_cong if_cong)

lemma urls_complete [simp]: "complete (c\<lparr>urls := x\<rparr>) = complete c"
  by (intro ext) (simp add: complete_def Let_def
      cong: option.case_cong exec.case_cong outcome.case_cong list.case_cong if_cong
        sum.case_cong)

lemma urls_attempt [simp]: "attempt (c\<lparr>urls := x\<rparr>) = attempt c"
  by (intro ext) (simp add: attempt_def Let_def
      cong: option.case_cong exec.case_cong outcome.case_cong list.case_cong if_cong)

lemma urls_taskSettled [simp]: "taskSettled (c\<lparr>urls := x\<rparr>) = taskSettled c"
  by (intro ext) (simp add: taskSettled_def Let_def
      cong: option.case_cong exec.case_cong outcome.case_cong list.case_cong if_cong
        sum.case_cong)

lemma urls_timerFired [simp]: "timerFired (c\<lparr>urls := x\<rparr>) = timerFired c"
  by (intro ext) (simp add: timerFired_def Let_def
      cong: option.case_cong exec.case_cong outcome.case_cong list.case_cong if_cong)

lemma urls_abortDuringDelay [simp]: "abortDuringDelay (c\<lparr>urls := x\<rparr>) = abortDuringDelay c"
  by (intro ext) (simp add: abortDuringDelay_def Let_def
      cong: option.case_cong exec.case_cong outcome.case_cong list.case_cong if_cong)

lemma urls_abort [simp]: "abort (c\<lparr>urls := x\<rparr>) = abort c"
  by (intro ext) (simp add: abort_def Let_def
      cong: option.case_cong exec.case_cong outcome.case_cong list.case_cong if_cong)

lemma urls_callbackSettled [simp]: "callbackSettled (c\<lparr>urls := x\<rparr>) = callbackSettled c"
  by (intro ext) (simp add: callbackSettled_def Let_def
      cong: option.case_cong exec.case_cong outcome.case_cong list.case_cong if_cong)

lemma urls_workerLoop [simp]: "workerLoop (c\<lparr>urls := x\<rparr>) = workerLoop c"
  by (intro ext) (simp add: workerLoop_def executeTaskWithRetries_def Let_def
      cong: option.case_cong exec.case_cong outcome.case_cong list.case_cong if_cong)

lemma urls_workerResumed [simp]: "workerResumed (c\<lparr>urls := x\<rparr>) = workerResumed c"
  by (intro ext) (simp add: workerResumed_def Let_def
      cong: option.case_cong exec.case_cong outcome.case_cong list.case_cong if_cong
        worker.case_cong)

lemma urls_urlsToProcess:
  "mode c = Threads \<Longrightarrow> urlsToProcess (c\<lparr>urls := uniqueUrls c\<rparr>) = urlsToProcess c"
  by (simp add: urlsToProcess_def uniqueUrls_def addAll_idem)

lemma urls_initial [simp]: "initial (c\<lparr>urls := x\<rparr>) = initial c"
  by (simp add: initial_def)

text \<open>
  The two calls go through the same closures, and settle at the same time and in the same
  way; their statistics differ in \<^verbatim>\<open>totalUrlsProvided\<close>.
\<close>

lemma dedup_start:
  assumes "mode c = Threads"
  shows "closure (start (c\<lparr>urls := uniqueUrls c\<rparr>) :: 'a engine) = closure (start c) \<and>
         returned (start (c\<lparr>urls := uniqueUrls c\<rparr>) :: 'a engine) =
           map_option (provided (int (length (uniqueUrls c)))) (returned (start c))"
  using assms urls_urlsToProcess [of c]
  by (simp add: start_def totalUrlsToProcess_def initialUrlCount_def Let_def)

lemma dedup_step:
  fixes m m' :: "'a engine"
  assumes "mode c = Threads" and "closure m' = closure m"
    and "returned m' = map_option (provided (int (length (uniqueUrls c)))) (returned m)"
  shows "closure (step (c\<lparr>urls := uniqueUrls c\<rparr>) m' ev) = closure (step c m ev) \<and>
         returned (step (c\<lparr>urls := uniqueUrls c\<rparr>) m' ev) =
           map_option (provided (int (length (uniqueUrls c)))) (returned (step c m ev))"
  using assms urls_urlsToProcess [of c]
  by (cases ev)
     (simp_all add: case_prod_beta mainResumed_def finalStats_def totalUrlsToProcess_def
        initialUrlCount_def split: option.splits)

lemma dedup_run:
  assumes "mode c = Threads"
  shows "closure (run (c\<lparr>urls := uniqueUrls c\<rparr>) evs) = closure (run c evs) \<and>
         returned (run (c\<lparr>urls := uniqueUrls c\<rparr>) evs) =
           map_option (provided (int (length (uniqueUrls c)))) (returned (run c evs :: 'a engine))"
proof (induction evs rule: rev_induct)
  case Nil
  from dedup_start [OF assms] show ?case by (simp add: run_def)
next
  case (snoc ev evs)
  then show ?case
    using dedup_step [OF assms, of "run (c\<lparr>urls := uniqueUrls c\<rparr>) evs" "run c evs" ev]
    by (simp add: run_def)
qed

lemma successfulResults_provided:
  fixes m m' :: "'a engine"
  assumes "closure m' = closure m" and "returned m' = map_option (provided n) (returned m)"
  shows "map_option successfulResults (fulfilled m) = map_option successfulResults (fulfilled m')"
proof (cases "returned m")
  case None
  with assms show ?thesis by (simp add: fulfilled_def)
next
  case (Some r)
  with assms show ?thesis by (cases r) (simp_all add: fulfilled_def)
qed

text \<open>
  C4. In 'threads' mode a call with the urls \<open>urls c\<close> and the call with the deduplicated
  list, on the same events, return at the same time with the same \<^verbatim>\<open>successfulResults\<close>
  (the same list, so the same set), and \<^verbatim>\<open>totalUrlsAttempted\<close> is the number of distinct
  urls (0 when the signal is aborted at the call and nothing is attempted).
\<close>

theorem dedup_threads:
  assumes "mode c = Threads"
  shows "map_option successfulResults (processUrlsConcurrentlyInTabs c evs) =
           map_option successfulResults
             (processUrlsConcurrentlyInTabs (c\<lparr>urls := uniqueUrls c\<rparr>) evs) \<and>
         (\<forall>r. processUrlsConcurrentlyInTabs c evs = Some r \<longrightarrow>
              totalUrlsAttempted (stats r) =
                (if signal c = Some True then 0 else int (card (set (urls c)))))"
proof (cases "signal c = Some True")
  case True
  then show ?thesis
    by (simp add: processUrlsConcurrentlyInTabs_def run_def run_after_early_return)
       (simp add: start_def fulfilled_def)
next
  case False
  let ?c = "c\<lparr>urls := uniqueUrls c\<rparr>"
  from dedup_run [OF assms, of evs]
  have same: "map_option successfulResults (fulfilled (run c evs)) =
              map_option successfulResults (fulfilled (run ?c evs))"
    by (intro successfulResults_provided) simp_all
  have attempted: "totalUrlsAttempted (stats r) = int (card (set (urls c)))"
    if "fulfilled (run c evs) = Some r" for r
  proof -
    from that lateReturn_run [OF False, of evs]
    have "totalUrlsAttempted (stats r) = int (totalUrlsToProcess c)"
      by (auto simp: fulfilled_def lateReturn_def split: option.splits settlement.splits)
    with assms show ?thesis
      by (simp add: totalUrlsToProcess_def urlsToProcess_def uniqueUrls_def length_addAll)
  qed
  from same attempted False show ?thesis
    by (simp add: processUrlsConcurrentlyInTabs_def)
qed

theorem dedup_threads_witness:
  "map_option successfulResults
     (processUrlsConcurrentlyInTabs (default_call [''a'', ''b'', ''a''] 1)
        [TaskSettled 0 (Resolved [1::nat]), WorkerResumed 0, TaskSettled 1 (Resolved [2]),
         WorkerResumed 0, MainResumed]) = Some [1, 2] \<and>
   map_option successfulResults
     (processUrlsConcurrentlyInTabs (default_call [''a'', ''b''] 1)
        [TaskSettled 0 (Resolved [1::nat]), WorkerResumed 0, TaskSettled 1 (Resolved [2]),
         WorkerResumed 0, MainResumed]) = Some [1, 2] \<and>
   map_option (\<lambda>r. totalUrlsAttempted (stats r))
     (processUrlsConcurrentlyInTabs (default_call [''a'', ''b'', ''a''] 1)
        [TaskSettled 0 (Resolved [1::nat]), WorkerResumed 0, TaskSettled 1 (Resolved [2]),
         WorkerResumed 0, MainResumed]) = Some 2"
  using dedup_threads [of "default_call [''a'', ''b'', ''a''] 1"
      "[TaskSettled 0 (Resolved [1::nat]), WorkerResumed 0, TaskSettled 1 (Resolved [2]),
        WorkerResumed 0, MainResumed]"]
  by (simp add: model_defs)

subsection \<open>Callbacks that throw\<close>

lemma callbackSettled_threw:
  "fst (callbackSettled c k threw s) = fst (callbackSettled c k False s)"
  by (simp add: callbackSettled_def split: option.splits exec.splits)

text \<open>What the \<^verbatim>\<open>catch\<close> blocks log.\<close>

lemma throwing_callback_logged:
  assumes "exec_at (closure m) k = Some (AwaitOnError e) \<or>
           exec_at (closure m) k = Some AwaitOnProgress"
  shows "\<exists>line. step c m (CallbackSettled k True) =
           (step c m (CallbackSettled k False))\<lparr>console := console m @ [line]\<rparr>"
  using assms by (auto simp: callbackSettled_def)

lemma no_throw_step:
  fixes m m' :: "'a engine"
  assumes "closure m' = closure m" and "returned m' = returned m"
  shows "closure (step c m' (no_throw ev)) = closure (step c m ev) \<and>
         returned (step c m' (no_throw ev)) = returned (step c m ev)"
proof (cases ev)
  case (CallbackSettled k threw)
  with assms callbackSettled_threw [of c k threw "closure m"] show ?thesis
    by (simp add: case_prod_beta)
qed (use assms in \<open>simp_all add: case_prod_beta\<close>)

lemma no_throw_run:
  "closure (run c (map no_throw evs)) = closure (run c evs) \<and>
   returned (run c (map no_throw evs)) = returned (run c evs)"
proof (induction evs rule: rev_induct)
  case Nil
  show ?case by (simp add: run_def)
next
  case (snoc ev evs)
  then show ?case
    using no_throw_step [of "run c (map no_throw evs)" "run c evs" c ev]
    by (simp add: run_def)
qed

lemma no_throw_console: "console (run c (map no_throw evs)) = []"
proof (induction evs rule: rev_induct)
  case Nil
  show ?case by (simp add: run_def start_def Let_def case_prod_beta split: mode.splits)
next
  case (snoc ev evs)
  then show ?case
    by (cases ev)
       (simp_all add: run_def case_prod_beta callbackSettled_def
          split: option.splits exec.splits)
qed

text \<open>
  C8. A callback that throws or rejects is an event like any other: the \<^verbatim>\<open>catch\<close> block
  logs it and the call goes on, so no event makes the call throw. The run with the same
  events and callbacks that never throw (as callbacks that do nothing) returns at the
  same time the same value, with the same \<^verbatim>\<open>successfulResults\<close> and \<^verbatim>\<open>failedTasks\<close>,
  leaves the same closure, and logs nothing.
\<close>

theorem throwing_callbacks_change_nothing:
  "processUrlsConcurrentlyInTabs c evs = processUrlsConcurrentlyInTabs c (map no_throw evs) \<and>
   closure (run c evs) = closure (run c (map no_throw evs)) \<and>
   console (run c (map no_throw evs)) = []"
  using no_throw_run [of c evs] no_throw_console [of c evs]
  by (simp add: processUrlsConcurrentlyInTabs_def fulfilled_def
      cong: option.case_cong settlement.case_cong)

theorem throwing_callbacks_change_nothing_witness:
  "processUrlsConcurrentlyInTabs
     ((default_call [''a'', ''b''] 1)\<lparr>onProgress := True, onError := True\<rparr>)
     [TaskSettled 0 (Rejected (Error ''Error'' ''boom'')), CallbackSettled 0 True,
      CallbackSettled 0 True, WorkerResumed 0, TaskSettled 1 (Resolved [7::nat]),
      CallbackSettled 1 True, WorkerResumed 0, MainResumed] =
   Some \<lparr>successfulResults = [7], failedTasks = [(''a'', Error ''Error'' ''boom'')],
         stats = \<lparr>totalUrlsProvided = 2, totalUrlsAttempted = 2, totalSuccess = 1,
                  totalFailed = 1, totalRetriesMade = 0\<rparr>\<rparr> \<and>
   console (run ((default_call [''a'', ''b''] 1)\<lparr>onProgress := True, onError := True\<rparr>)
     [TaskSettled 0 (Rejected (Error ''Error'' ''boom'')), CallbackSettled 0 True,
      CallbackSettled 0 True, WorkerResumed 0, TaskSettled 1 (Resolved [7::nat]),
      CallbackSettled 1 True, WorkerResumed 0, MainResumed]) =
     [''Error in onError handler:'', ''Error in onProgress handler:'',
      ''Error in onProgress handler:'']"
  using throwing_callbacks_change_nothing [of
      "(default_call [''a'', ''b''] 1)\<lparr>onProgress := True, onError := True\<rparr>"
      "[TaskSettled 0 (Rejected (Error ''Error'' ''boom'')), CallbackSettled 0 True,
        CallbackSettled 0 True, WorkerResumed 0, TaskSettled 1 (Resolved [7::nat]),
        CallbackSettled 1 True, WorkerResumed 0, MainResumed]"]
  by (simp add: model_defs)

subsection \<open>The two engines\<close>

lemma basic_of_fields [simp]:
  "successfulResults (basic_of s) = successfulResults s"
  "failedTasks (basic_of s) = failedTasks s"
  "aborted (basic_of s) = aborted s"
  "abortListeners (basic_of s) = abortListeners s"
  "urlQueue (basic_of s) = urlQueue s"
  "chunkStart (basic_of s) = chunkStart s"
  "execs (basic_of s) = execs s"
  "workers (basic_of s) = workers s"
  "chunk (basic_of s) = chunk s"
  "allRejected (basic_of s) = allRejected s"
  "completedCount (basic_of s) = completedCount s"
  by (simp_all add: basic_of_def)

lemma basic_of_updates [simp]:
  "basic_of (s\<lparr>successfulResults := x1\<rparr>) = (basic_of s)\<lparr>successfulResults := x1\<rparr>"
  "basic_of (s\<lparr>failedTasks := x2\<rparr>) = (basic_of s)\<lparr>failedTasks := x2\<rparr>"
  "basic_of (s\<lparr>aborted := x3\<rparr>) = (basic_of s)\<lparr>aborted := x3\<rparr>"
  "basic_of (s\<lparr>abortListeners := x4\<rparr>) = (basic_of s)\<lparr>abortListeners := x4\<rparr>"
  "basic_of (s\<lparr>urlQueue := x5\<rparr>) = (basic_of s)\<lparr>urlQueue := x5\<rparr>"
  "basic_of (s\<lparr>chunkStart := x6\<rparr>) = (basic_of s)\<lparr>chunkStart := x6\<rparr>"
  "basic_of (s\<lparr>execs := x7\<rparr>) = (basic_of s)\<lparr>execs := x7\<rparr>"
  "basic_of (s\<lparr>workers := y1\<rparr>) = (basic_of s)\<lparr>workers := y1\<rparr>"
  "basic_of (s\<lparr>chunk := y2\<rparr>) = (basic_of s)\<lparr>chunk := y2\<rparr>"
  "basic_of (s\<lparr>allRejected := y3\<rparr>) = (basic_of s)\<lparr>allRejected := y3\<rparr>"
  "basic_of (s\<lparr>completedCount := x8\<rparr>) = (basic_of s)\<lparr>completedCount := x8\<rparr>"
  "basic_of (s\<lparr>state.totalRetriesMade := x9\<rparr>) = basic_of s"
  "basic_of (s\<lparr>itemLog := x10\<rparr>) = basic_of s"
  by (simp_all add: basic_of_def)

lemma basic_of_exec_at [simp]: "exec_at (basic_of s) k = exec_at s k"
  by (simp add: exec_at_def)

lemma basic_of_worker_at [simp]: "worker_at (basic_of s) i = worker_at s i"
  by (simp add: worker_at_def)

lemma basic_of_set_exec [simp]: "basic_of (set_exec k e s) = set_exec k e (basic_of s)"
  by (simp add: set_exec_def)

lemma basic_of_set_worker [simp]: "basic_of (set_worker i w s) = set_worker i w (basic_of s)"
  by (simp add: set_worker_def)

lemma basic_of_reject [simp]: "basic_of (reject c k e s) = reject c k e (basic_of s)"
  by (simp add: reject_def)

lemma basic_of_progress [simp]:
  "basic_of (progress c k err s) = basic_progress c k err (basic_of s)"
  by (simp add: progress_def basic_progress_def)

lemma basic_of_complete [simp]:
  "basic_of (complete c k u n err res s) = basic_complete c k u err res (basic_of s)"
  by (simp add: complete_def basic_complete_def Let_def split: option.splits sum.splits)

lemma basic_of_attempt [simp]:
  "basic_of (attempt c k u a n err s) = basic_attempt c k u a n err (basic_of s)"
  by (simp add: attempt_def basic_attempt_def)

lemma basic_of_execute [simp]:
  "basic_of (executeTaskWithRetries c u s) = basic_executeTaskWithRetries c u (basic_of s)"
  by (simp add: executeTaskWithRetries_def basic_executeTaskWithRetries_def)

text \<open>
  The one difference in the retry loop: the basic engine retries every error, this one
  the retryable ones.
\<close>

lemma basic_of_same_listeners [simp]:
  "(basic_of s)\<lparr>abortListeners := abortListeners s\<rparr> = basic_of s"
  by (simp add: basic_of_def)

lemma basic_of_taskSettled:
  assumes "\<And>e. out = Rejected e \<Longrightarrow> isRetryable c e = Inr True"
  shows "basic_of (taskSettled c k out s) = basic_taskSettled c k out (basic_of s)"
proof (cases "exec_at s k")
  case None
  then show ?thesis by (simp add: taskSettled_def basic_taskSettled_def)
next
  case (Some x)
  show ?thesis
  proof (cases x)
    case (AwaitTask u a n)
    show ?thesis
    proof (cases out)
      case (Resolved rs)
      with Some AwaitTask show ?thesis by (simp add: taskSettled_def basic_taskSettled_def)
    next
      case (Oversized e)
      with Some AwaitTask show ?thesis by (simp add: taskSettled_def basic_taskSettled_def)
    next
      case (Rejected e)
      with assms have "isRetryable c e = Inr True" by simp
      with Some AwaitTask Rejected show ?thesis
        by (cases "signal c")
           (simp_all add: taskSettled_def basic_taskSettled_def basic_attempt_def Let_def
              split: sum.splits)
    qed
  qed (use Some in \<open>simp_all add: taskSettled_def basic_taskSettled_def\<close>)
qed

lemma basic_of_timerFired [simp]:
  "basic_of (timerFired c k s) = basic_timerFired c k (basic_of s)"
  by (simp add: timerFired_def basic_timerFired_def split: option.splits exec.splits)

lemma basic_of_abortDuringDelay [simp]:
  "basic_of (abortDuringDelay c s k) = basic_abortDuringDelay c (basic_of s) k"
  by (simp add: abortDuringDelay_def basic_abortDuringDelay_def split: option.splits exec.splits)

lemma basic_of_abortAll [simp]:
  "basic_of (foldl (abortDuringDelay c) s ks) = foldl (basic_abortDuringDelay c) (basic_of s) ks"
  by (induction ks arbitrary: s) simp_all

lemma basic_of_abort [simp]: "basic_of (abort c s) = basic_abort c (basic_of s)"
  by (simp add: abort_def basic_abort_def)

lemma basic_of_callbackSettled [simp]:
  "basic_of (fst (callbackSettled c k threw s)) = fst (basic_callbackSettled c k threw (basic_of s))"
  "snd (callbackSettled c k threw s) = snd (basic_callbackSettled c k threw (basic_of s))"
  by (simp_all add: callbackSettled_def basic_callbackSettled_def
      split: option.splits exec.splits)

lemma basic_of_workerLoop [simp]:
  "basic_of (workerLoop c i s) = basic_workerLoop c i (basic_of s)"
  by (simp add: workerLoop_def basic_workerLoop_def Let_def split: list.splits)

lemma basic_of_workerResumed [simp]:
  "basic_of (workerResumed c i s) = basic_workerResumed c i (basic_of s)"
  by (simp add: workerResumed_def basic_workerResumed_def
      split: option.splits worker.splits exec.splits)

lemma basic_of_startAll [simp]:
  "basic_of (foldl (\<lambda>t u. (executeTaskWithRetries c u t)\<lparr>chunk := chunk t @ [length (execs t)]\<rparr>)
               s us) =
     foldl (\<lambda>t u. (basic_executeTaskWithRetries c u t)\<lparr>chunk := chunk t @ [length (execs t)]\<rparr>)
       (basic_of s) us"
  by (induction us arbitrary: s) simp_all

lemma basic_of_launchAll [simp]:
  "basic_of (foldl (\<lambda>t i. workerLoop c i t) s ks) =
     foldl (\<lambda>t i. basic_workerLoop c i t) (basic_of s) ks"
  by (induction ks arbitrary: s) simp_all

lemma basic_of_startChunk [simp]:
  "basic_of (fst (startChunk c s)) = fst (basic_startChunk c (basic_of s))"
  "map_option basic_settlement_of (snd (startChunk c s)) = snd (basic_startChunk c (basic_of s))"
  by (simp_all add: startChunk_def basic_startChunk_def Let_def)

lemma basic_of_mainResumed [simp]:
  "basic_of (fst (mainResumed c s)) = fst (basic_mainResumed c (basic_of s))"
  "map_option basic_settlement_of (snd (mainResumed c s)) = snd (basic_mainResumed c (basic_of s))"
  by (simp_all add: mainResumed_def basic_mainResumed_def split: mode.splits option.splits)

lemma basic_of_initial [simp]: "basic_of (initial c) = basic_initial c"
  by (simp add: basic_of_def initial_def basic_initial_def)

lemma basic_engine_of_start: "basic_engine_of (start c) = basic_start c"
proof (cases "signal c = Some True")
  case True
  then show ?thesis
    by (simp add: basic_engine_of_def start_def basic_start_def basic_result_def)
next
  case False
  then show ?thesis
    by (cases "mode c")
       (simp_all add: basic_engine_of_def start_def basic_start_def Let_def case_prod_beta)
qed

lemma basic_engine_of_step:
  assumes "timeoutOrOther ev" and "isRetryable c = (\<lambda>e. Inr (name e = ''TimeoutError''))"
  shows "basic_engine_of (step c m ev) = basic_step c (basic_engine_of m) ev"
proof (cases ev)
  case (TaskSettled k out)
  with assms have "isRetryable c e = Inr True" if "out = Rejected e" for e
    using that by simp
  then have "basic_of (taskSettled c k out (closure m)) =
             basic_taskSettled c k out (basic_of (closure m))"
    by (rule basic_of_taskSettled)
  with TaskSettled show ?thesis by (simp add: basic_engine_of_def)
qed (simp_all add: basic_engine_of_def case_prod_beta)

lemma basic_engine_of_run:
  assumes "timeoutsOnly evs" and "isRetryable c = (\<lambda>e. Inr (name e = ''TimeoutError''))"
  shows "basic_engine_of (run c evs) = basic_run c evs"
  using assms(1)
proof (induction evs rule: rev_induct)
  case Nil
  show ?case by (simp add: run_def basic_run_def basic_engine_of_start)
next
  case (snoc ev evs)
  then have ev: "timeoutOrOther ev" and evs: "basic_engine_of (run c evs) = basic_run c evs"
    by (simp_all add: timeoutsOnly_def)
  with basic_engine_of_step [OF ev assms(2), of "run c evs"] show ?case
    by (simp add: run_def basic_run_def)
qed

lemma basic_fulfilled_engine_of:
  "basic_fulfilled (basic_engine_of m) = map_option basic_result (fulfilled m)"
proof (cases "returned m")
  case None
  then show ?thesis by (simp add: basic_fulfilled_def fulfilled_def basic_engine_of_def)
next
  case (Some r)
  then show ?thesis
    by (cases r)
       (simp_all add: basic_fulfilled_def fulfilled_def basic_engine_of_def basic_result_def)
qed

text \<open>
  C10. When the enhanced engine is called with its default \<^verbatim>\<open>isRetryable\<close> and every
  error thrown by the task has the name \<^verbatim>\<open>'TimeoutError'\<close>, the basic engine called with
  the same urls, concurrency and options, on the same events, returns when the enhanced
  one does, with the same \<^verbatim>\<open>successfulResults\<close> and the same \<^verbatim>\<open>failedTasks\<close>
  (\<open>basic_result r\<close> is these two fields of \<open>r\<close>).
\<close>

theorem engines_agree_on_timeouts:
  assumes "isRetryable c = (\<lambda>e. Inr (name e = ''TimeoutError''))" and "timeoutsOnly evs"
  shows "basic_processUrlsConcurrentlyInTabs c evs =
           map_option basic_result (processUrlsConcurrentlyInTabs c evs)"
  using basic_engine_of_run [OF assms(2) assms(1)] basic_fulfilled_engine_of [of "run c evs"]
  by (simp add: basic_processUrlsConcurrentlyInTabs_def processUrlsConcurrentlyInTabs_def)

theorem engines_agree_on_timeouts_witness:
  "basic_processUrlsConcurrentlyInTabs
     ((default_call [''a'', ''b'', ''c''] 2)\<lparr>mode := Portions, maxRetries := 1,
                                            signal := Some False\<rparr>)
     [TaskSettled 0 (Rejected (Error ''TimeoutError'' ''t'')),
      TaskSettled 1 (Resolved [1::nat]), TimerFired 0,
      TaskSettled 0 (Rejected (Error ''TimeoutError'' ''t'')), MainResumed,
      TaskSettled 2 (Rejected (Error ''TimeoutError'' ''t'')), Abort, MainResumed] =
   Some \<lparr>successfulResults = [1],
         failedTasks = [(''a'', Error ''TimeoutError'' ''t''),
                        (''c'', Error ''Error'' ''Operation aborted during retry delay'')]\<rparr> \<and>
   processUrlsConcurrentlyInTabs
     ((default_call [''a'', ''b'', ''c''] 2)\<lparr>mode := Portions, maxRetries := 1,
                                            signal := Some False\<rparr>)
     [TaskSettled 0 (Rejected (Error ''TimeoutError'' ''t'')),
      TaskSettled 1 (Resolved [1::nat]), TimerFired 0,
      TaskSettled 0 (Rejected (Error ''TimeoutError'' ''t'')), MainResumed,
      TaskSettled 2 (Rejected (Error ''TimeoutError'' ''t'')), Abort, MainResumed] =
   Some \<lparr>successfulResults = [1],
         failedTasks = [(''a'', Error ''TimeoutError'' ''t''),
                        (''c'', Error ''Error'' ''Operation aborted during retry delay'')],
         stats = \<lparr>totalUrlsProvided = 3, totalUrlsAttempted = 3, totalSuccess = 1,
                  totalFailed = 2, totalRetriesMade = 2\<rparr>\<rparr>"
  using engines_agree_on_timeouts [of
      "(default_call [''a'', ''b'', ''c''] 2)\<lparr>mode := Portions, maxRetries := 1,
                                             signal := Some False\<rparr>"
      "[TaskSettled 0 (Rejected (Error ''TimeoutError'' ''t'')),
        TaskSettled 1 (Resolved [1::nat]), TimerFired 0,
        TaskSettled 0 (Rejected (Error ''TimeoutError'' ''t'')), MainResumed,
        TaskSettled 2 (Rejected (Error ''TimeoutError'' ''t'')), Abort, MainResumed]"]
  by (simp add: model_defs timeoutsOnly_def basic_result_def)

subsection \<open>What a step of a call changes\<close>

lemma exec_atD:
  "exec_at s k = Some e \<Longrightarrow> k < length (execs s) \<and> execs s ! k = e"
  by (simp add: exec_at_def split: if_splits)

lemma worker_atD:
  "worker_at s i = Some w \<Longrightarrow> i < length (workers s) \<and> workers s ! i = w"
  by (simp add: worker_at_def split: if_splits)

lemma sum_list_update:
  "k < length xs \<Longrightarrow>
   sum_list (map f (xs[k := e])) + f (xs ! k) = sum_list (map f xs) + (f e :: nat)"
proof (induction xs arbitrary: k)
  case Nil
  then show ?case by simp
next
  case (Cons x xs)
  then show ?case by (cases k) (simp_all add: add.assoc add.left_commute)
qed

lemma list_all_update:
  "list_all P xs \<Longrightarrow> P e \<Longrightarrow> list_all P (xs[k := e])"
  by (induction xs arbitrary: k) (auto split: nat.splits)

lemma list_all_updateD:
  "list_all P (xs[k := e]) \<Longrightarrow> k < length xs \<Longrightarrow> P (xs ! k) \<Longrightarrow> list_all P xs"
  by (induction xs arbitrary: k) (auto split: nat.splits)

lemma list_all_update_new:
  "list_all P (xs[k := e]) \<Longrightarrow> k < length xs \<Longrightarrow> P e"
  by (induction xs arbitrary: k) (auto split: nat.splits)

lemma retriesOf_append [simp]: "retriesOf (items @ [(u, n)]) = retriesOf items + (n - 1)"
  by (simp add: retriesOf_def)

lemma set_exec_fields [simp]:
  "execs (set_exec k e s) = (execs s)[k := e]"
  "workers (set_exec k e s) = workers s"
  "chunk (set_exec k e s) = chunk s"
  "allRejected (set_exec k e s) = allRejected s"
  "aborted (set_exec k e s) = aborted s"
  "urlQueue (set_exec k e s) = urlQueue s"
  "chunkStart (set_exec k e s) = chunkStart s"
  "abortListeners (set_exec k e s) = abortListeners s"
  "completedCount (set_exec k e s) = completedCount s"
  "successfulResults (set_exec k e s) = successfulResults s"
  "failedTasks (set_exec k e s) = failedTasks s"
  by (simp_all add: set_exec_def)

lemma set_exec_ghost [simp]:
  "itemLog (set_exec k e s) = itemLog s"
  "state.totalRetriesMade (set_exec k e s) = state.totalRetriesMade s"
  by (simp_all add: set_exec_def)

lemma set_worker_fields [simp]:
  "execs (set_worker i w s) = execs s"
  "workers (set_worker i w s) = (workers s)[i := w]"
  "chunk (set_worker i w s) = chunk s"
  "allRejected (set_worker i w s) = allRejected s"
  "aborted (set_worker i w s) = aborted s"
  "urlQueue (set_worker i w s) = urlQueue s"
  "chunkStart (set_worker i w s) = chunkStart s"
  "abortListeners (set_worker i w s) = abortListeners s"
  "completedCount (set_worker i w s) = completedCount s"
  "successfulResults (set_worker i w s) = successfulResults s"
  "failedTasks (set_worker i w s) = failedTasks s"
  by (simp_all add: set_worker_def)

lemma set_worker_ghost [simp]:
  "itemLog (set_worker i w s) = itemLog s"
  "state.totalRetriesMade (set_worker i w s) = state.totalRetriesMade s"
  by (simp_all add: set_worker_def)

lemma reject_fields [simp]:
  "execs (reject c k e s) = (execs s)[k := Threw e]"
  "workers (reject c k e s) = workers s"
  "chunk (reject c k e s) = chunk s"
  "aborted (reject c k e s) = aborted s"
  "urlQueue (reject c k e s) = urlQueue s"
  "chunkStart (reject c k e s) = chunkStart s"
  "abortListeners (reject c k e s) = abortListeners s"
  "completedCount (reject c k e s) = completedCount s"
  "successfulResults (reject c k e s) = successfulResults s"
  "failedTasks (reject c k e s) = failedTasks s"
  by (simp_all add: reject_def)

lemma reject_ghost [simp]:
  "itemLog (reject c k e s) = itemLog s"
  "state.totalRetriesMade (reject c k e s) = state.totalRetriesMade s"
  by (simp_all add: reject_def)

lemma progress_fields [simp]:
  "execs (progress c k err s) =
     (execs s)[k := (if onProgress c \<and> \<not> operationAborted err then AwaitOnProgress
                     else Returned)]"
  "workers (progress c k err s) = workers s"
  "chunk (progress c k err s) = chunk s"
  "allRejected (progress c k err s) = allRejected s"
  "aborted (progress c k err s) = aborted s"
  "urlQueue (progress c k err s) = urlQueue s"
  "chunkStart (progress c k err s) = chunkStart s"
  "abortListeners (progress c k err s) = abortListeners s"
  "completedCount (progress c k err s) = completedCount s"
  "successfulResults (progress c k err s) = successfulResults s"
  "failedTasks (progress c k err s) = failedTasks s"
  "itemLog (progress c k err s) = itemLog s"
  "state.totalRetriesMade (progress c k err s) = state.totalRetriesMade s"
  by (simp_all add: progress_def)

text \<open>What the end of a call of \<^verbatim>\<open>executeTaskWithRetries\<close> does to the closure.\<close>

lemma pushError_None [simp]: "pushError None = None"
  by (simp add: pushError_def)

lemma complete_execs:
  "execs (complete c k u n err res s) = (execs s)[k := afterLoop c err (pushError res)]"
  by (simp add: complete_def Let_def afterLoop_def operationAborted_def pushError_def
      split: option.splits sum.splits)

lemma afterLoop_simps [simp]:
  "pendingRetries (afterLoop c err x) = 0"
  "okExec c (afterLoop c err x)"
  "invocations (afterLoop c err x) = 0"
  "\<not> isThrew (afterLoop c (Some e) x)"
  "\<not> isThrew (afterLoop c err None)"
  by (simp_all add: afterLoop_def split: option.splits)

lemma complete_fields [simp]:
  "itemLog (complete c k u n err res s) = itemLog s @ [(u, n)]"
  "state.totalRetriesMade (complete c k u n err res s) = state.totalRetriesMade s"
  "aborted (complete c k u n err res s) = aborted s"
  "completedCount (complete c k u n err res s) = completedCount s + 1"
  "urlQueue (complete c k u n err res s) = urlQueue s"
  "chunkStart (complete c k u n err res s) = chunkStart s"
  "abortListeners (complete c k u n err res s) = abortListeners s"
  "workers (complete c k u n err res s) = workers s"
  "chunk (complete c k u n err res s) = chunk s"
  by (simp_all add: complete_def Let_def split: option.splits sum.splits)

lemma complete_allRejected:
  "\<not> isThrew (afterLoop c err (pushError res)) \<Longrightarrow>
   allRejected (complete c k u n err res s) = allRejected s"
  by (simp add: complete_def Let_def afterLoop_def pushError_def split: option.splits sum.splits)

lemma attempt_execs:
  "execs (attempt c k u a n err s) =
     (execs s)[k := (if a \<le> maxRetries c
                     then (if aborted s
                           then afterLoop c (Some (Error ''Error'' ''Operation aborted'')) None
                           else AwaitTask u a (n + 1))
                     else afterLoop c err None)]"
  by (simp add: attempt_def complete_execs)

lemma attempt_fields [simp]:
  "aborted (attempt c k u a n err s) = aborted s"
  "urlQueue (attempt c k u a n err s) = urlQueue s"
  "chunkStart (attempt c k u a n err s) = chunkStart s"
  "abortListeners (attempt c k u a n err s) = abortListeners s"
  "workers (attempt c k u a n err s) = workers s"
  "chunk (attempt c k u a n err s) = chunk s"
  "allRejected (attempt c k u a n err s) = allRejected s"
  "state.totalRetriesMade (attempt c k u a n err s) = state.totalRetriesMade s"
  by (simp_all add: attempt_def complete_allRejected)

lemma execute_fields [simp]:
  "length (execs (executeTaskWithRetries c u s)) = length (execs s) + 1"
  "aborted (executeTaskWithRetries c u s) = aborted s"
  "urlQueue (executeTaskWithRetries c u s) = urlQueue s"
  "chunkStart (executeTaskWithRetries c u s) = chunkStart s"
  "abortListeners (executeTaskWithRetries c u s) = abortListeners s"
  "workers (executeTaskWithRetries c u s) = workers s"
  "chunk (executeTaskWithRetries c u s) = chunk s"
  "allRejected (executeTaskWithRetries c u s) = allRejected s"
  "state.totalRetriesMade (executeTaskWithRetries c u s) = state.totalRetriesMade s"
  by (simp_all add: executeTaskWithRetries_def attempt_execs)

text \<open>A new call is suspended at its task, or has returned when the signal is aborted.\<close>

lemma execute_execs:
  "execs (executeTaskWithRetries c u s) =
     execs s @ [if aborted s
                then afterLoop c (Some (Error ''Error'' ''Operation aborted'')) None
                else AwaitTask u 0 1]"
  by (simp add: executeTaskWithRetries_def attempt_execs)

subsection \<open>The retry count\<close>

text \<open>A call that has thrown stays so: no step of another call rewrites it.\<close>

lemma noCallRejected_updateD:
  assumes "noCallRejected s'" and "execs s' = (execs s)[k := e]"
    and "k < length (execs s) \<Longrightarrow> \<not> isThrew (execs s ! k)"
  shows "noCallRejected s"
proof (cases "k < length (execs s)")
  case True
  with assms show ?thesis
    by (auto simp: noCallRejected_def intro: list_all_updateD)
next
  case False
  then have "(execs s)[k := e] = execs s" by (intro list_update_beyond) simp
  with assms show ?thesis by (simp add: noCallRejected_def)
qed

lemma noCallRejected_new:
  assumes "noCallRejected s'" and "execs s' = (execs s)[k := e]" and "k < length (execs s)"
  shows "\<not> isThrew e"
  using assms list_all_update_new [of "\<lambda>e. \<not> isThrew e" "execs s" k e]
  by (simp add: noCallRejected_def)

lemma retryInv_okExec:
  "retryInv c s \<Longrightarrow> exec_at s k = Some e \<Longrightarrow> okExec c e"
  by (auto simp: retryInv_def list_all_length dest!: exec_atD)

lemma retryInv_ghost [simp]:
  "retryInv c (s\<lparr>abortListeners := x1\<rparr>) = retryInv c s"
  "retryInv c (s\<lparr>urlQueue := x2\<rparr>) = retryInv c s"
  "retryInv c (s\<lparr>chunkStart := x3\<rparr>) = retryInv c s"
  "retryInv c (s\<lparr>workers := x4\<rparr>) = retryInv c s"
  "retryInv c (s\<lparr>chunk := x5\<rparr>) = retryInv c s"
  "retryInv c (s\<lparr>allRejected := x6\<rparr>) = retryInv c s"
  by (simp_all add: retryInv_def noCallRejected_def)

lemma retryInv_complete:
  assumes "list_all (okExec c) (execs s)"
    and "list_all (\<lambda>(u, n). n \<le> maxRetries c + 1) (itemLog s)"
    and "k < length (execs s)" and "n \<le> maxRetries c + 1"
    and "\<not> isThrew (execs s ! k)"
    and "\<not> aborted s \<Longrightarrow> noCallRejected s \<Longrightarrow>
           state.totalRetriesMade s + pendingRetries (execs s ! k) =
             retriesOf (itemLog s) + sum_list (map pendingRetries (execs s)) + (n - 1)"
  shows "retryInv c (complete c k u n err res s)"
proof -
  let ?s' = "complete c k u n err res s"
  from sum_list_update [OF assms(3), of pendingRetries "afterLoop c err (pushError res)"]
  have sum: "sum_list (map pendingRetries (execs ?s')) + pendingRetries (execs s ! k) =
             sum_list (map pendingRetries (execs s))"
    by (simp add: complete_execs)
  have "state.totalRetriesMade ?s' = retriesOf (itemLog ?s') + sum_list (map pendingRetries (execs ?s'))"
    if "\<not> aborted ?s'" and nr: "noCallRejected ?s'"
  proof -
    from assms(5) have "noCallRejected s"
      by (intro noCallRejected_updateD [OF nr complete_execs])
    with that assms(6) sum show ?thesis by simp
  qed
  with assms(1,2,4) show ?thesis
    by (simp add: retryInv_def complete_execs list_all_update)
qed

lemma retryInv_attempt:
  assumes "list_all (okExec c) (execs s)"
    and "list_all (\<lambda>(u, n). n \<le> maxRetries c + 1) (itemLog s)"
    and "k < length (execs s)" and "a \<le> maxRetries c"
    and "\<not> isThrew (execs s ! k)"
    and "\<not> aborted s \<Longrightarrow> noCallRejected s \<Longrightarrow>
           state.totalRetriesMade s + pendingRetries (execs s ! k) =
             retriesOf (itemLog s) + sum_list (map pendingRetries (execs s)) + a"
  shows "retryInv c (attempt c k u a a err s)"
proof (cases "aborted s")
  case True
  have "retryInv c (complete c k u a (Some (Error ''Error'' ''Operation aborted'')) None s)"
    using assms True by (intro retryInv_complete) simp_all
  with True assms(4) show ?thesis by (simp add: attempt_def)
next
  case False
  let ?s' = "set_exec k (AwaitTask u a (a + 1)) s"
  from sum_list_update [OF assms(3), of pendingRetries "AwaitTask u a (a + 1)"]
  have sum: "sum_list (map pendingRetries (execs ?s')) + pendingRetries (execs s ! k) =
             sum_list (map pendingRetries (execs s)) + a"
    by simp
  have "state.totalRetriesMade ?s' = retriesOf (itemLog ?s') + sum_list (map pendingRetries (execs ?s'))"
    if nr: "noCallRejected ?s'"
  proof -
    have "noCallRejected s"
      by (rule noCallRejected_updateD [OF nr, of s k "AwaitTask u a (a + 1)"])
         (simp_all add: assms(5))
    with False assms(6) sum show ?thesis by simp
  qed
  with False assms(1,2,4) show ?thesis
    by (simp add: attempt_def retryInv_def list_all_update)
qed

lemma retryInv_set_exec:
  assumes "retryInv c s" and "k < length (execs s)" and "okExec c e"
    and "pendingRetries e = pendingRetries (execs s ! k)" and "\<not> isThrew (execs s ! k)"
  shows "retryInv c (set_exec k e s)"
proof -
  from sum_list_update [OF assms(2), of pendingRetries e] assms(4)
  have sum: "sum_list (map pendingRetries ((execs s)[k := e])) =
             sum_list (map pendingRetries (execs s))"
    by simp
  have "noCallRejected s" if "noCallRejected (set_exec k e s)"
    by (rule noCallRejected_updateD [OF that, of s k e]) (simp_all add: assms(5))
  with assms(1,3) sum show ?thesis
    by (auto simp: retryInv_def list_all_update)
qed

lemma retryInv_reject:
  assumes "list_all (okExec c) (execs s)"
    and "list_all (\<lambda>(u, n). n \<le> maxRetries c + 1) (itemLog s)"
    and "k < length (execs s)"
  shows "retryInv c (reject c k x s)"
proof -
  have "\<not> noCallRejected (reject c k x s)"
    using noCallRejected_new [of "reject c k x s" s k "Threw x"] assms(3) by auto
  with assms(1,2) show ?thesis
    by (simp add: retryInv_def list_all_update)
qed

lemma retryInv_taskSettled:
  assumes "retryInv c s"
  shows "retryInv c (taskSettled c k out s)"
proof (cases "exec_at s k")
  case None
  with assms show ?thesis by (simp add: taskSettled_def)
next
  case (Some e)
  show ?thesis
  proof (cases e)
    case (AwaitTask u a n)
    from exec_atD [OF Some] AwaitTask have k: "k < length (execs s)" "execs s ! k = AwaitTask u a n"
      by simp_all
    from retryInv_okExec [OF assms Some] AwaitTask have n: "n = a + 1" "a \<le> maxRetries c"
      by simp_all
    from assms have inv: "list_all (okExec c) (execs s)"
      "list_all (\<lambda>(u, n). n \<le> maxRetries c + 1) (itemLog s)"
      "\<not> aborted s \<Longrightarrow> noCallRejected s \<Longrightarrow> state.totalRetriesMade s =
          retriesOf (itemLog s) + sum_list (map pendingRetries (execs s))"
      by (simp_all add: retryInv_def)
    have final: "retryInv c (complete c k u n err res s)" for err res
      using inv k n by (intro retryInv_complete) simp_all
    have thrown: "retryInv c (reject c k x (s'\<lparr>itemLog := itemLog s @ [(u, n)]\<rparr>))"
      if "execs s' = execs s" for x and s' :: "'a state"
      using inv k n that by (intro retryInv_reject) simp_all
    show ?thesis
    proof (cases out)
      case (Resolved rs)
      with Some AwaitTask final show ?thesis by (simp add: taskSettled_def)
    next
      case (Oversized x)
      with Some AwaitTask final show ?thesis by (simp add: taskSettled_def)
    next
      case (Rejected err)
      show ?thesis
      proof (cases "isRetryable c err")
        case (Inl x)
        with Some AwaitTask Rejected thrown [of s x] show ?thesis
          by (simp add: taskSettled_def)
      next
        case (Inr retryable)
        show ?thesis
        proof (cases "retryable \<and> a + 1 \<le> maxRetries c")
          case False
          with Some AwaitTask Rejected Inr final show ?thesis
            by (auto simp: taskSettled_def)
        next
          case True
          let ?s1 = "s\<lparr>state.totalRetriesMade := state.totalRetriesMade s + 1\<rparr>"
          show ?thesis
          proof (cases "delay (retryDelayMs c) (a + 1)")
            case (Inl x)
            with Some AwaitTask Rejected Inr True thrown [of ?s1 x] show ?thesis
              by (simp add: taskSettled_def)
          next
            case d: (Inr d)
            show ?thesis
            proof (cases "positive d")
              case False
              have "retryInv c (attempt c k u (a + 1) (a + 1) (Some err) ?s1)"
                using inv k n True
                by (intro retryInv_attempt) (simp_all add: noCallRejected_def)
              with Some AwaitTask Rejected Inr True d False n show ?thesis
                by (simp add: taskSettled_def)
            next
              case pos: True
              let ?e = "AwaitDelay u (a + 1) err n (setTimeout d)"
              from sum_list_update [OF k(1), of pendingRetries ?e] k
              have sum: "sum_list (map pendingRetries ((execs s)[k := ?e])) + a =
                    sum_list (map pendingRetries (execs s)) + (a + 1)"
                by simp
              have "retryInv c (set_exec k ?e (?s1\<lparr>abortListeners := ls\<rparr>))" for ls
              proof -
                have "noCallRejected s" if "noCallRejected (set_exec k ?e (?s1\<lparr>abortListeners := ls\<rparr>))"
                  by (rule noCallRejected_updateD [OF that, of s k ?e]) (simp_all add: k)
                with inv n True sum show ?thesis
                  by (auto simp: retryInv_def list_all_update)
              qed
              with Some AwaitTask Rejected Inr True d pos show ?thesis
                by (simp add: taskSettled_def Let_def)
            qed
          qed
        qed
      qed
    qed
  qed (use assms Some in \<open>simp_all add: taskSettled_def\<close>)
qed

lemma retryInv_timerFired:
  assumes "retryInv c s"
  shows "retryInv c (timerFired c k s)"
proof (cases "exec_at s k")
  case None
  with assms show ?thesis by (simp add: timerFired_def)
next
  case (Some e)
  show ?thesis
  proof (cases e)
    case (AwaitDelay u a err n d)
    from exec_atD [OF Some] AwaitDelay have k: "k < length (execs s)"
      "execs s ! k = AwaitDelay u a err n d"
      by simp_all
    from retryInv_okExec [OF assms Some] AwaitDelay have n: "n = a" "a \<le> maxRetries c"
      by simp_all
    have "retryInv c (attempt c k u a a (Some err)
                        (s\<lparr>abortListeners := remove1 k (abortListeners s)\<rparr>))"
      using assms k n by (intro retryInv_attempt) (simp_all add: retryInv_def noCallRejected_def)
    with Some AwaitDelay n show ?thesis by (simp add: timerFired_def)
  qed (use assms Some in \<open>simp_all add: timerFired_def\<close>)
qed

lemma retryInv_abortDuringDelay:
  assumes "retryInv c s" and "aborted s"
  shows "retryInv c (abortDuringDelay c s k) \<and> aborted (abortDuringDelay c s k)"
proof (cases "exec_at s k")
  case None
  with assms show ?thesis by (simp add: abortDuringDelay_def)
next
  case (Some e)
  show ?thesis
  proof (cases e)
    case (AwaitDelay u a err n d)
    from exec_atD [OF Some] AwaitDelay have k: "k < length (execs s)"
      "execs s ! k = AwaitDelay u a err n d" by simp_all
    from retryInv_okExec [OF assms(1) Some] AwaitDelay have n: "n = a" "a \<le> maxRetries c"
      by simp_all
    have "retryInv c (complete c k u n
            (Some (Error ''Error'' ''Operation aborted during retry delay'')) None s)"
      using assms k n by (intro retryInv_complete) (simp_all add: retryInv_def)
    with Some AwaitDelay assms(2) show ?thesis by (simp add: abortDuringDelay_def)
  qed (use assms Some in \<open>simp_all add: abortDuringDelay_def\<close>)
qed

lemma retryInv_abortAll:
  "retryInv c s \<Longrightarrow> aborted s \<Longrightarrow> retryInv c (foldl (abortDuringDelay c) s ks)"
  by (induction ks arbitrary: s) (simp_all add: retryInv_abortDuringDelay)

lemma retryInv_abort:
  assumes "retryInv c s"
  shows "retryInv c (abort c s)"
proof -
  from assms have "retryInv c (s\<lparr>aborted := True, abortListeners := []\<rparr>)"
    by (simp add: retryInv_def)
  then have "retryInv c (foldl (abortDuringDelay c) (s\<lparr>aborted := True, abortListeners := []\<rparr>)
                (abortListeners s))"
    by (rule retryInv_abortAll) simp
  with assms show ?thesis by (simp add: abort_def)
qed

lemma retryInv_callbackSettled:
  assumes "retryInv c s"
  shows "retryInv c (fst (callbackSettled c k threw s))"
proof (cases "exec_at s k")
  case None
  with assms show ?thesis by (simp add: callbackSettled_def)
next
  case (Some e)
  from exec_atD [OF Some] have k: "k < length (execs s)" "execs s ! k = e" by simp_all
  show ?thesis
  proof (cases e)
    case (AwaitOnError err)
    with assms k have "retryInv c (set_exec k x s)" if "x = AwaitOnProgress \<or> x = Returned" for x
      using that by (intro retryInv_set_exec) auto
    with Some AwaitOnError show ?thesis by (simp add: callbackSettled_def progress_def)
  next
    case AwaitOnProgress
    with assms k have "retryInv c (set_exec k Returned s)"
      by (intro retryInv_set_exec) auto
    with Some AwaitOnProgress show ?thesis by (simp add: callbackSettled_def)
  qed (use assms Some in \<open>simp_all add: callbackSettled_def\<close>)
qed

lemma retryInv_execute:
  assumes "retryInv c s"
  shows "retryInv c (executeTaskWithRetries c u s)"
  unfolding executeTaskWithRetries_def
  using assms
  by (intro retryInv_attempt) (simp_all add: retryInv_def noCallRejected_def nth_append)

lemma retryInv_workerLoop:
  assumes "retryInv c s"
  shows "retryInv c (workerLoop c i s)"
  using assms
  by (simp add: workerLoop_def set_worker_def Let_def retryInv_execute split: list.splits)

lemma retryInv_workerResumed:
  assumes "retryInv c s"
  shows "retryInv c (workerResumed c i s)"
  using assms
  by (simp add: workerResumed_def retryInv_workerLoop set_worker_def
      split: option.splits worker.splits exec.splits)

lemma retryInv_startAll:
  assumes "retryInv c s"
  shows "retryInv c (foldl (\<lambda>t u. (executeTaskWithRetries c u t)\<lparr>chunk := chunk t @ [length (execs t)]\<rparr>)
                       s us)"
  using assms by (induction us arbitrary: s) (simp_all add: retryInv_execute)

lemma retryInv_startChunk:
  assumes "retryInv c s"
  shows "retryInv c (fst (startChunk c s))"
  using assms retryInv_startAll [of c "s\<lparr>chunk := [], allRejected := None\<rparr>"]
  by (simp add: startChunk_def)

lemma retryInv_mainResumed:
  assumes "retryInv c s"
  shows "retryInv c (fst (mainResumed c s))"
  using assms retryInv_startChunk [of c "s\<lparr>chunkStart := chunkStart s + maxConcurrency c\<rparr>"]
  by (simp add: mainResumed_def split: mode.splits option.splits)

lemma retryInv_initial: "retryInv c (initial c)"
  by (simp add: retryInv_def initial_def retriesOf_def)

lemma retryInv_launch:
  "retryInv c s \<Longrightarrow> retryInv c (foldl (\<lambda>t i. workerLoop c i t) s ks)"
  by (induction ks arbitrary: s) (simp_all add: retryInv_workerLoop)

lemma retryInv_start: "retryInv c (closure (start c :: 'a engine))"
proof -
  let ?n = "min (maxConcurrency c) (totalUrlsToProcess c)"
  let ?s = "(initial c :: 'a state)\<lparr>urlQueue := urlsToProcess c,
                                       workers := replicate ?n Idle\<rparr>"
  have "retryInv c ?s"
    by (simp add: retryInv_initial)
  then have "retryInv c (foldl (\<lambda>t i. workerLoop c i t) ?s [0..<?n])"
    by (rule retryInv_launch)
  moreover have "retryInv c (fst (startChunk c (initial c :: 'a state)))"
    by (rule retryInv_startChunk) (simp_all add: retryInv_initial)
  ultimately show ?thesis
    by (simp add: start_def Let_def case_prod_beta retryInv_initial split: mode.splits)
qed

lemma retryInv_step:
  "retryInv c (closure m) \<Longrightarrow> retryInv c (closure (step c m ev))"
  by (cases ev)
     (simp_all add: case_prod_beta retryInv_taskSettled retryInv_timerFired retryInv_abort
        retryInv_callbackSettled retryInv_workerResumed retryInv_mainResumed)

lemma retryInv_run: "retryInv c (closure (run c evs))"
  unfolding run_def
  by (induction evs rule: rev_induct) (simp_all add: retryInv_start retryInv_step)

lemma okExec_invocations: "okExec c e \<Longrightarrow> invocations e \<le> maxRetries c + 1"
  by (cases e) simp_all

subsection \<open>Calls that have ended\<close>

lemma isThrew_ended: "isThrew e \<Longrightarrow> ended e"
  by (cases e) simp_all

lemma ended_cases: "ended e \<Longrightarrow> \<not> isThrew e \<Longrightarrow> e = Returned"
  by (cases e) simp_all

lemma endedKept_refl [simp]: "endedKept s s"
  by (simp add: endedKept_def)

lemma endedKept_trans: "endedKept s t \<Longrightarrow> endedKept t u \<Longrightarrow> endedKept s u"
  by (auto simp: endedKept_def)

lemma endedKept_update:
  assumes "execs s' = (execs s)[k := e]" and "k < length (execs s) \<Longrightarrow> \<not> ended (execs s ! k)"
  shows "endedKept s s'"
proof -
  have "(execs s)[k := e] ! j = execs s ! j" if "j < length (execs s)" "ended (execs s ! j)" for j
  proof (cases "j = k")
    case True
    with that assms(2) show ?thesis by simp
  next
    case False
    then show ?thesis by simp
  qed
  with assms(1) show ?thesis by (simp add: endedKept_def)
qed

lemma endedKept_noCallRejected:
  assumes "endedKept s s'" and "noCallRejected s'"
  shows "noCallRejected s"
  unfolding noCallRejected_def list_all_length
proof (intro allI impI)
  fix j assume j: "j < length (execs s)"
  show "\<not> isThrew (execs s ! j)"
  proof
    assume t: "isThrew (execs s ! j)"
    with assms(1) j have "execs s' ! j = execs s ! j" "j < length (execs s')"
      by (auto simp: endedKept_def isThrew_ended)
    with assms(2) t show False by (auto simp: noCallRejected_def list_all_length)
  qed
qed

lemma endedKept_fields [simp]:
  "endedKept s (s'\<lparr>abortListeners := x1\<rparr>) = endedKept s s'"
  "endedKept s (s'\<lparr>urlQueue := x2\<rparr>) = endedKept s s'"
  "endedKept s (s'\<lparr>chunkStart := x3\<rparr>) = endedKept s s'"
  "endedKept s (s'\<lparr>workers := x4\<rparr>) = endedKept s s'"
  "endedKept s (s'\<lparr>chunk := x5\<rparr>) = endedKept s s'"
  "endedKept s (s'\<lparr>allRejected := x6\<rparr>) = endedKept s s'"
  "endedKept s (s'\<lparr>aborted := x7\<rparr>) = endedKept s s'"
  "endedKept s (s'\<lparr>completedCount := x8\<rparr>) = endedKept s s'"
  by (simp_all add: endedKept_def)

lemma endedKept_ghost [simp]:
  "endedKept s (t\<lparr>state.totalRetriesMade := y1\<rparr>) = endedKept s t"
  "endedKept s (t\<lparr>itemLog := y2\<rparr>) = endedKept s t"
  by (simp_all add: endedKept_def)

lemma endedKept_complete:
  "(k < length (execs s) \<Longrightarrow> \<not> ended (execs s ! k)) \<Longrightarrow>
   endedKept s (complete c k u n err res s)"
  by (rule endedKept_update [OF complete_execs])

lemma endedKept_attempt:
  "(k < length (execs s) \<Longrightarrow> \<not> ended (execs s ! k)) \<Longrightarrow>
   endedKept s (attempt c k u a n err s)"
  by (rule endedKept_update [OF attempt_execs])

lemma endedKept_taskSettled: "endedKept s (taskSettled c k out s)"
proof (cases "exec_at s k")
  case None
  then show ?thesis by (simp add: taskSettled_def)
next
  case (Some e)
  show ?thesis
  proof (cases e)
    case (AwaitTask u a n)
    with exec_atD [OF Some] have k: "k < length (execs s)" "\<not> ended (execs s ! k)"
      by simp_all
    have upd: "endedKept s t" if "execs t = (execs s)[k := x]" for t :: "'a state" and x
      using that k by (intro endedKept_update) simp_all
    have "endedKept s (complete c k u n err res s)" for err res
      using k by (intro endedKept_complete) simp
    moreover have "endedKept s (attempt c k u a' n (Some err) (s\<lparr>state.totalRetriesMade := r\<rparr>))"
      for a' err r
      by (rule upd) (simp add: attempt_execs)
    moreover have "endedKept s (reject c k x t)" if "execs t = execs s" for x and t :: "'a state"
      by (rule upd) (simp add: that)
    moreover have "endedKept s (set_exec k x t)" if "execs t = execs s" for x and t :: "'a state"
      by (rule upd) (simp add: that)
    ultimately show ?thesis
      using Some AwaitTask
      by (simp add: taskSettled_def Let_def split: outcome.splits sum.splits)
  qed (use Some in \<open>simp_all add: taskSettled_def\<close>)
qed

lemma endedKept_timerFired: "endedKept s (timerFired c k s)"
proof (cases "exec_at s k")
  case None
  then show ?thesis by (simp add: timerFired_def)
next
  case (Some e)
  show ?thesis
  proof (cases e)
    case (AwaitDelay u a err n d)
    with exec_atD [OF Some] have k: "k < length (execs s)" "\<not> ended (execs s ! k)"
      by simp_all
    have "endedKept s (attempt c k u a n (Some err) (s\<lparr>abortListeners := ls\<rparr>))" for ls
      using k by (intro endedKept_update [where k = k]) (simp_all add: attempt_execs)
    with Some AwaitDelay show ?thesis by (simp add: timerFired_def)
  qed (use Some in \<open>simp_all add: timerFired_def\<close>)
qed

lemma endedKept_abortDuringDelay: "endedKept s (abortDuringDelay c s k)"
proof (cases "exec_at s k")
  case None
  then show ?thesis by (simp add: abortDuringDelay_def)
next
  case (Some e)
  show ?thesis
  proof (cases e)
    case (AwaitDelay u a err n d)
    with exec_atD [OF Some] have k: "k < length (execs s)" "\<not> ended (execs s ! k)"
      by simp_all
    then have "endedKept s (complete c k u n err' None s)" for err'
      by (intro endedKept_complete) simp
    with Some AwaitDelay show ?thesis by (simp add: abortDuringDelay_def)
  qed (use Some in \<open>simp_all add: abortDuringDelay_def\<close>)
qed

lemma endedKept_abortAll: "endedKept s (foldl (abortDuringDelay c) s ks)"
proof (induction ks arbitrary: s)
  case Nil
  show ?case by simp
next
  case (Cons k ks)
  from endedKept_trans [OF endedKept_abortDuringDelay [of s c k] Cons [of "abortDuringDelay c s k"]]
  show ?case by simp
qed

lemma endedKept_abort: "endedKept s (abort c s)"
  using endedKept_abortAll [of "s\<lparr>aborted := True, abortListeners := []\<rparr>" c "abortListeners s"]
  by (simp add: abort_def endedKept_def)

lemma endedKept_callbackSettled: "endedKept s (fst (callbackSettled c k threw s))"
proof (cases "exec_at s k")
  case None
  then show ?thesis by (simp add: callbackSettled_def)
next
  case (Some e)
  from exec_atD [OF Some] have k: "k < length (execs s)" "execs s ! k = e" by simp_all
  have "endedKept s t" if "execs t = (execs s)[k := x]" "\<not> ended e" for t :: "'a state" and x
  proof (rule endedKept_update [OF that(1)])
    from k that(2) show "\<not> ended (execs s ! k)" by simp
  qed
  with Some show ?thesis
    by (cases e) (simp_all add: callbackSettled_def)
qed

lemma endedKept_execute: "endedKept s (executeTaskWithRetries c u s)"
  by (simp add: endedKept_def execute_execs nth_append)

lemma endedKept_workerLoop: "endedKept s (workerLoop c i s)"
  using endedKept_execute [of "s\<lparr>urlQueue := tl (urlQueue s)\<rparr>" c "hd (urlQueue s)"]
  by (auto simp: workerLoop_def Let_def endedKept_def split: list.splits)

lemma endedKept_workerResumed: "endedKept s (workerResumed c i s)"
  by (simp add: workerResumed_def endedKept_workerLoop
      split: option.splits worker.splits exec.splits)
     (simp add: endedKept_def)

lemma endedKept_startAll:
  "endedKept s (foldl (\<lambda>t u. (executeTaskWithRetries c u t)\<lparr>chunk := chunk t @ [length (execs t)]\<rparr>)
                  s us)"
proof (induction us arbitrary: s)
  case Nil
  show ?case by simp
next
  case (Cons u us)
  let ?t = "(executeTaskWithRetries c u s)\<lparr>chunk := chunk s @ [length (execs s)]\<rparr>"
  have "endedKept s ?t" by (simp add: endedKept_execute)
  from endedKept_trans [OF this Cons [of ?t]] show ?case by simp
qed

lemma endedKept_startChunk: "endedKept s (fst (startChunk c s))"
  using endedKept_startAll [of "s\<lparr>chunk := [], allRejected := None\<rparr>" c]
  by (simp add: startChunk_def endedKept_def)

lemma endedKept_mainResumed: "endedKept s (fst (mainResumed c s))"
  using endedKept_startChunk [of "s\<lparr>chunkStart := chunkStart s + maxConcurrency c\<rparr>" c]
  by (simp add: mainResumed_def endedKept_def split: mode.splits option.splits)

lemma endedKept_step: "endedKept (closure m) (closure (step c m ev))"
  by (cases ev)
     (simp_all add: case_prod_beta endedKept_taskSettled endedKept_timerFired endedKept_abort
        endedKept_callbackSettled endedKept_workerResumed endedKept_mainResumed)

subsection \<open>The promises that are awaited\<close>

lemma linked_fields [simp]:
  "linked c (s\<lparr>abortListeners := x1\<rparr>) = linked c s"
  "linked c (s\<lparr>urlQueue := x2\<rparr>) = linked c s"
  "linked c (s\<lparr>chunkStart := x3\<rparr>) = linked c s"
  "linked c (s\<lparr>aborted := x7\<rparr>) = linked c s"
  "linked c (s\<lparr>completedCount := x8\<rparr>) = linked c s"
  by (simp_all add: linked_def noCallRejected_def)

lemma linked_ghost [simp]:
  "linked c (t\<lparr>state.totalRetriesMade := y1\<rparr>) = linked c t"
  "linked c (t\<lparr>itemLog := y2\<rparr>) = linked c t"
  by (simp_all add: linked_def noCallRejected_def)

text \<open>A step of a call that has not ended.\<close>

lemma linked_update:
  assumes "linked c s" and "k < length (execs s)" and "\<not> ended (execs s ! k)"
    and "execs s' = (execs s)[k := e]" and "workers s' = workers s" and "chunk s' = chunk s"
    and "\<not> isThrew e \<Longrightarrow> allRejected s' = allRejected s"
  shows "linked c s'"
proof -
  have nth: "\<not> ended (execs s ! j)" if "j < length (execs s)" "\<not> ended (execs s' ! j)" for j
    using that assms(3,4) by (cases "j = k") simp_all
  have threads: "Awaiting j \<in> set (workers s')"
    if "mode c = Threads" "j < length (execs s')" "\<not> ended (execs s' ! j)" for j
    using that nth [of j] assms(1,4,5) by (simp add: linked_def)
  have portions: "allRejected s' = None \<and> (j < length (execs s') \<longrightarrow> \<not> ended (execs s' ! j) \<longrightarrow>
                    j \<in> set (chunk s'))"
    if "mode c = Portions" "noCallRejected s'" for j
  proof -
    from that(2) assms(4) assms(2) have "\<not> isThrew e" by (rule noCallRejected_new)
    then have a: "allRejected s' = allRejected s" by (rule assms(7))
    from assms(3) have "\<not> isThrew (execs s ! k)" using isThrew_ended by blast
    then have "noCallRejected s"
      by (intro noCallRejected_updateD [OF that(2) assms(4)])
    with that(1) assms(1) a nth [of j] assms(4,6) show ?thesis
      by (simp add: linked_def)
  qed
  from assms(1,5,6) threads portions show ?thesis
    by (simp add: linked_def)
qed

lemma linked_taskSettled:
  assumes "linked c s"
  shows "linked c (taskSettled c k out s)"
proof (cases "exec_at s k")
  case None
  with assms show ?thesis by (simp add: taskSettled_def)
next
  case (Some e)
  show ?thesis
  proof (cases e)
    case (AwaitTask u a n)
    with exec_atD [OF Some] have k: "k < length (execs s)" "\<not> ended (execs s ! k)"
      by simp_all
    note upd = linked_update [OF assms k]
    have "linked c (complete c k u n err res s)" for err res
      by (rule upd [where e = "afterLoop c err (pushError res)"])
         (simp_all add: complete_execs complete_allRejected)
    moreover have "linked c (attempt c k u a' n (Some err) (s\<lparr>state.totalRetriesMade := r\<rparr>))"
      for a' err r
      by (rule upd) (simp_all add: attempt_execs)
    moreover have "linked c (reject c k x t)"
      if "execs t = execs s" "workers t = workers s" "chunk t = chunk s" for x and t :: "'a state"
      by (rule upd [where e = "Threw x"]) (simp_all add: that)
    moreover have "linked c (set_exec k x t)"
      if "execs t = execs s" "workers t = workers s" "chunk t = chunk s"
        "allRejected t = allRejected s" for x and t :: "'a state"
      by (rule upd [where e = x]) (simp_all add: that)
    ultimately show ?thesis
      using Some AwaitTask
      by (simp add: taskSettled_def Let_def split: outcome.splits sum.splits)
  qed (use assms Some in \<open>simp_all add: taskSettled_def\<close>)
qed

lemma linked_timerFired:
  assumes "linked c s"
  shows "linked c (timerFired c k s)"
proof (cases "exec_at s k")
  case None
  with assms show ?thesis by (simp add: timerFired_def)
next
  case (Some e)
  show ?thesis
  proof (cases e)
    case (AwaitDelay u a err n d)
    with exec_atD [OF Some] have k: "k < length (execs s)" "\<not> ended (execs s ! k)"
      by simp_all
    have "linked c (attempt c k u a n (Some err) (s\<lparr>abortListeners := ls\<rparr>))" for ls
      by (rule linked_update [OF assms k]) (simp_all add: attempt_execs)
    with Some AwaitDelay show ?thesis by (simp add: timerFired_def)
  qed (use assms Some in \<open>simp_all add: timerFired_def\<close>)
qed

lemma linked_abortDuringDelay:
  assumes "linked c s"
  shows "linked c (abortDuringDelay c s k)"
proof (cases "exec_at s k")
  case None
  with assms show ?thesis by (simp add: abortDuringDelay_def)
next
  case (Some e)
  show ?thesis
  proof (cases e)
    case (AwaitDelay u a err n d)
    with exec_atD [OF Some] have k: "k < length (execs s)" "\<not> ended (execs s ! k)"
      by simp_all
    have "linked c (complete c k u n (Some err') None s)" for err'
      by (rule linked_update [OF assms k, where e = "afterLoop c (Some err') None"])
         (simp_all add: complete_execs complete_allRejected)
    with Some AwaitDelay show ?thesis by (simp add: abortDuringDelay_def)
  qed (use assms Some in \<open>simp_all add: abortDuringDelay_def\<close>)
qed

lemma linked_abortAll:
  "linked c s \<Longrightarrow> linked c (foldl (abortDuringDelay c) s ks)"
  by (induction ks arbitrary: s) (simp_all add: linked_abortDuringDelay)

lemma linked_abort: "linked c s \<Longrightarrow> linked c (abort c s)"
  by (simp add: abort_def linked_abortAll)

lemma linked_callbackSettled:
  assumes "linked c s"
  shows "linked c (fst (callbackSettled c k threw s))"
proof (cases "exec_at s k")
  case None
  with assms show ?thesis by (simp add: callbackSettled_def)
next
  case (Some e)
  from exec_atD [OF Some] have k: "k < length (execs s)" "execs s ! k = e" by simp_all
  have "linked c t"
    if "\<not> ended e" "execs t = (execs s)[k := x]" "workers t = workers s" "chunk t = chunk s"
      "allRejected t = allRejected s" for t :: "'a state" and x
  proof (rule linked_update [OF assms k(1) _ that(2,3,4)])
    from k that(1) show "\<not> ended (execs s ! k)" by simp
  qed (rule that(5))
  with Some assms show ?thesis
    by (cases e) (simp_all add: callbackSettled_def)
qed

text \<open>
  'threads' mode: a worker that goes on awaits no call that has not ended, and awaits its
  new call.
\<close>

lemma in_set_update:
  "x \<in> set xs \<Longrightarrow> xs ! i \<noteq> x \<Longrightarrow> x \<in> set (xs[i := y])"
  by (metis in_set_conv_nth length_list_update nth_list_update_neq)

lemma linked_worker:
  assumes "linked c s" and "mode c = Threads" and "i < length (workers s)"
    and "\<And>k. k < length (execs s) \<Longrightarrow> \<not> ended (execs s ! k) \<Longrightarrow> workers s ! i \<noteq> Awaiting k"
    and "execs s' = execs s \<or> (\<exists>e. execs s' = execs s @ [e] \<and> w = Awaiting (length (execs s)))"
    and "workers s' = (workers s)[i := w]" and "chunk s' = chunk s"
  shows "linked c s'"
proof -
  have old: "Awaiting j \<in> set (workers s')" if "j < length (execs s)" "\<not> ended (execs s ! j)" for j
  proof -
    from that assms(1,2) have "Awaiting j \<in> set (workers s)" by (simp add: linked_def)
    with assms(4) [OF that] assms(6) show ?thesis by (simp add: in_set_update)
  qed
  have "Awaiting j \<in> set (workers s')" if "j < length (execs s')" "\<not> ended (execs s' ! j)" for j
    using assms(5)
  proof
    assume "execs s' = execs s"
    with that old show ?thesis by simp
  next
    assume "\<exists>e. execs s' = execs s @ [e] \<and> w = Awaiting (length (execs s))"
    then obtain e where e: "execs s' = execs s @ [e]" "w = Awaiting (length (execs s))" by blast
    show ?thesis
    proof (cases "j < length (execs s)")
      case True
      with that e old show ?thesis by (simp add: nth_append)
    next
      case False
      with that e have "j = length (execs s)" by simp
      with e assms(3,6) show ?thesis by (simp add: set_update_memI)
    qed
  qed
  with assms(1,2,7) show ?thesis by (simp add: linked_def)
qed

lemma workerLoop_workers: "\<exists>w. workers (workerLoop c i s) = (workers s)[i := w]"
  by (auto simp: workerLoop_def Let_def split: list.splits)

lemma linked_workerLoop:
  assumes "linked c s" and "mode c = Threads" and "i < length (workers s)"
    and "\<And>k. k < length (execs s) \<Longrightarrow> \<not> ended (execs s ! k) \<Longrightarrow> workers s ! i \<noteq> Awaiting k"
  shows "linked c (workerLoop c i s)"
proof -
  have stop: "linked c (set_worker i WorkerDone t)"
    if "execs t = execs s" "workers t = workers s" "chunk t = chunk s" for t :: "'a state"
    by (rule linked_worker [OF assms]) (simp_all add: that)
  have go: "linked c (set_worker i (Awaiting (length (execs s))) (executeTaskWithRetries c u t))"
    if "execs t = execs s" "workers t = workers s" "chunk t = chunk s" "aborted t = aborted s"
    for t :: "'a state" and u
    by (rule linked_worker [OF assms]) (simp_all add: that execute_execs)
  show ?thesis
    by (simp add: workerLoop_def Let_def stop go split: list.splits)
qed

lemma linked_workerResumed:
  assumes "linked c s"
  shows "linked c (workerResumed c i s)"
proof (cases "mode c = Threads")
  case False
  with assms show ?thesis by (simp add: workerResumed_def)
next
  case True
  show ?thesis
  proof (cases "worker_at s i")
    case None
    with assms show ?thesis by (simp add: workerResumed_def)
  next
    case (Some w)
    from worker_atD [OF Some] have i: "i < length (workers s)" "workers s ! i = w" by simp_all
    show ?thesis
    proof (cases w)
      case (Awaiting k)
      show ?thesis
      proof (cases "exec_at s k")
        case None
        with assms Some Awaiting show ?thesis by (simp add: workerResumed_def)
      next
        case e: (Some e)
        from exec_atD [OF e] have k: "k < length (execs s)" "execs s ! k = e" by simp_all
        have free: "workers s ! i \<noteq> Awaiting j"
          if "ended e" "j < length (execs s)" "\<not> ended (execs s ! j)" for j
          using that i k Awaiting by auto
        have "linked c (workerLoop c i s)" if "e = Returned"
          using that free by (intro linked_workerLoop [OF assms True i(1)]) simp_all
        moreover have "linked c ((set_worker i (WorkerFailed x) s)\<lparr>allRejected := y\<rparr>)"
          if "e = Threw x" for x y
          using that free
          by (intro linked_worker [OF assms True i(1), where w = "WorkerFailed x"]) simp_all
        ultimately show ?thesis
          using assms True Some Awaiting e
          by (cases e) (simp_all add: workerResumed_def)
      qed
    qed (use assms Some in \<open>simp_all add: workerResumed_def\<close>)
  qed
qed

lemma linked_launch:
  assumes "linked c s" and "mode c = Threads" and "n \<le> length (workers s)"
    and "\<forall>j. k \<le> j \<and> j < n \<longrightarrow> workers s ! j = Idle"
  shows "linked c (foldl (\<lambda>t i. workerLoop c i t) s [k..<n])"
  using assms
proof (induction "n - k" arbitrary: k s)
  case 0
  then show ?case by simp
next
  case (Suc d)
  then have k: "k < n" by simp
  obtain w where w: "workers (workerLoop c k s) = (workers s)[k := w]"
    using workerLoop_workers by blast
  have "linked c (workerLoop c k s)"
    using Suc.prems k by (intro linked_workerLoop) simp_all
  moreover have "n \<le> length (workers (workerLoop c k s))"
    using Suc.prems w by simp
  moreover have "\<forall>j. Suc k \<le> j \<and> j < n \<longrightarrow> workers (workerLoop c k s) ! j = Idle"
    using Suc.prems w by simp
  moreover have "d = n - Suc k" using Suc.hyps(2) by simp
  ultimately have "linked c (foldl (\<lambda>t i. workerLoop c i t) (workerLoop c k s) [Suc k..<n])"
    using Suc.prems(2) by (intro Suc.hyps(1)) simp_all
  with k show ?case by (simp add: upt_conv_Cons)
qed

text \<open>'portions' mode: the calls of a new chunk are in \<^verbatim>\<open>promises\<close>.\<close>

lemma linked_startAll:
  assumes "linked c s" and "mode c = Portions"
  shows "linked c (foldl (\<lambda>t u. (executeTaskWithRetries c u t)\<lparr>chunk := chunk t @ [length (execs t)]\<rparr>)
                     s us)"
  using assms(1)
proof (induction us arbitrary: s)
  case Nil
  then show ?case by simp
next
  case (Cons u us)
  let ?t = "(executeTaskWithRetries c u s)\<lparr>chunk := chunk s @ [length (execs s)]\<rparr>"
  have "noCallRejected s" if "noCallRejected ?t"
    using that by (simp add: noCallRejected_def execute_execs)
  with Cons.prems assms(2) have "linked c ?t"
    by (auto simp: linked_def execute_execs nth_append)
  from Cons.IH [OF this] show ?case by simp
qed

lemma linked_startChunk:
  assumes "linked c s" and "mode c = Portions"
    and "noCallRejected s \<Longrightarrow> list_all ended (execs s)"
  shows "linked c (fst (startChunk c s))"
proof -
  from assms have "linked c (s\<lparr>chunk := [], allRejected := None\<rparr>)"
    by (auto simp: linked_def noCallRejected_def list_all_length)
  from linked_startAll [OF this assms(2)] assms(1) show ?thesis
    by (simp add: startChunk_def)
qed

lemma linked_all_ended:
  assumes "linked c s" and "mode c = Portions" and "noCallRejected s"
    and "allRejected s \<noteq> None \<or> list_all (\<lambda>k. exec_at s k = Some Returned) (chunk s)"
  shows "list_all ended (execs s)"
  unfolding list_all_length
proof (intro allI impI)
  fix j assume j: "j < length (execs s)"
  show "ended (execs s ! j)"
  proof (rule ccontr)
    assume "\<not> ended (execs s ! j)"
    with assms(1-3) j have "j \<in> set (chunk s)" "allRejected s = None"
      by (simp_all add: linked_def)
    with assms(4) have "exec_at s j = Some Returned" by (simp add: list_all_iff)
    with \<open>\<not> ended (execs s ! j)\<close> show False by (auto dest: exec_atD)
  qed
qed

lemma linked_mainResumed:
  assumes "linked c s"
  shows "linked c (fst (mainResumed c s))"
proof (cases "mode c")
  case Threads
  with assms show ?thesis by (simp add: mainResumed_def split: option.splits)
next
  case Portions
  let ?s = "s\<lparr>chunkStart := chunkStart s + maxConcurrency c\<rparr>"
  have "linked c (fst (startChunk c ?s))"
    if "allRejected s \<noteq> None \<or> list_all (\<lambda>k. exec_at s k = Some Returned) (chunk s)"
  proof (rule linked_startChunk)
    show "linked c ?s" using assms by simp
    show "mode c = Portions" by (rule Portions)
    show "list_all ended (execs ?s)" if "noCallRejected ?s"
      using linked_all_ended [OF assms Portions, OF _ \<open>allRejected s \<noteq> None \<or> _\<close>] that
      by (simp add: noCallRejected_def)
  qed
  with assms Portions show ?thesis by (auto simp: mainResumed_def)
qed

lemma linked_start: "linked c (closure (start c :: 'a engine))"
proof -
  let ?n = "min (maxConcurrency c) (totalUrlsToProcess c)"
  let ?s = "(initial c :: 'a state)\<lparr>urlQueue := urlsToProcess c, workers := replicate ?n Idle\<rparr>"
  have init: "linked c (initial c :: 'a state)"
    by (simp add: linked_def initial_def noCallRejected_def)
  have "linked c (foldl (\<lambda>t i. workerLoop c i t) ?s [0..<?n])" if "mode c = Threads"
    using that by (intro linked_launch) (simp_all add: linked_def initial_def)
  moreover have "linked c (fst (startChunk c (initial c :: 'a state)))" if "mode c = Portions"
    using init that by (rule linked_startChunk) (simp add: initial_def)
  ultimately show ?thesis
    using init by (simp add: start_def Let_def case_prod_beta split: mode.splits)
qed

lemma linked_step: "linked c (closure m) \<Longrightarrow> linked c (closure (step c m ev))"
  by (cases ev)
     (simp_all add: case_prod_beta linked_taskSettled linked_timerFired linked_abort
        linked_callbackSettled linked_workerResumed linked_mainResumed)

lemma linked_run: "linked c (closure (run c evs))"
  unfolding run_def
  by (induction evs rule: rev_induct) (simp_all add: linked_start linked_step)

subsection \<open>The closure when the call returns\<close>

lemma aborted_taskSettled [simp]: "aborted (taskSettled c k out s) = aborted s"
  by (simp add: taskSettled_def Let_def split: option.splits exec.splits outcome.splits sum.splits)

lemma aborted_timerFired [simp]: "aborted (timerFired c k s) = aborted s"
  by (simp add: timerFired_def split: option.splits exec.splits)

lemma aborted_abortDuringDelay [simp]: "aborted (abortDuringDelay c s k) = aborted s"
  by (simp add: abortDuringDelay_def split: option.splits exec.splits)

lemma aborted_abortAll [simp]: "aborted (foldl (abortDuringDelay c) s ks) = aborted s"
  by (induction ks arbitrary: s) simp_all

lemma aborted_callbackSettled [simp]: "aborted (fst (callbackSettled c k threw s)) = aborted s"
  by (simp add: callbackSettled_def split: option.splits exec.splits)

lemma aborted_workerLoop [simp]: "aborted (workerLoop c i s) = aborted s"
  by (simp add: workerLoop_def Let_def split: list.splits)

lemma aborted_workerResumed [simp]: "aborted (workerResumed c i s) = aborted s"
  by (simp add: workerResumed_def split: option.splits worker.splits exec.splits)

lemma aborted_startAll [simp]:
  "aborted (foldl (\<lambda>t u. (executeTaskWithRetries c u t)\<lparr>chunk := chunk t @ [length (execs t)]\<rparr>)
              s us) = aborted s"
  by (induction us arbitrary: s) simp_all

lemma aborted_launchAll [simp]: "aborted (foldl (\<lambda>t i. workerLoop c i t) s ks) = aborted s"
  by (induction ks arbitrary: s) simp_all

lemma aborted_startChunk [simp]: "aborted (fst (startChunk c s)) = aborted s"
  by (simp add: startChunk_def)

lemma aborted_mainResumed [simp]: "aborted (fst (mainResumed c s)) = aborted s"
  by (simp add: mainResumed_def split: mode.splits option.splits)

lemma abort_not_aborted: "\<not> aborted (abort c s) \<Longrightarrow> abort c s = s"
  by (simp add: abort_def split: if_splits)

lemma aborted_abort: "aborted s \<Longrightarrow> aborted (abort c s)"
  by (simp add: abort_def)

text \<open>When nothing of the call is left to run, no event changes the closure.\<close>

lemma quiescent_exec_at: "quiescent s \<Longrightarrow> exec_at s k = None \<or> exec_at s k = Some Returned"
  by (auto simp: quiescent_def exec_at_def list_all_length)

lemma quiescent_worker_at:
  "quiescent s \<Longrightarrow> worker_at s i = None \<or> worker_at s i = Some WorkerDone"
  by (auto simp: quiescent_def worker_at_def list_all_length)

lemma quiescent_taskSettled: "quiescent s \<Longrightarrow> taskSettled c k out s = s"
  using quiescent_exec_at [of s k] by (auto simp: taskSettled_def)

lemma quiescent_timerFired: "quiescent s \<Longrightarrow> timerFired c k s = s"
  using quiescent_exec_at [of s k] by (auto simp: timerFired_def)

lemma quiescent_callbackSettled: "quiescent s \<Longrightarrow> fst (callbackSettled c k threw s) = s"
  using quiescent_exec_at [of s k] by (auto simp: callbackSettled_def)

lemma quiescent_workerResumed: "quiescent s \<Longrightarrow> workerResumed c i s = s"
  using quiescent_worker_at [of s i] by (auto simp: workerResumed_def)

lemma all_returned:
  assumes "list_all ended (execs s)" and "noCallRejected s"
  shows "list_all (\<lambda>e. e = Returned) (execs s)"
  using assms ended_cases by (auto simp: noCallRejected_def list_all_iff)

lemma startChunk_returns:
  "snd (startChunk c s) = Some r \<Longrightarrow>
   fst (startChunk c s) = s \<and> r = Shared (finalStats c s) \<and>
   (\<not> aborted s \<longrightarrow> totalUrlsToProcess c \<le> chunkStart s)"
  by (simp add: startChunk_def split: if_splits)

lemma mainResumed_quiescent:
  assumes "linked c s" and "snd (mainResumed c s) = Some (Shared st)"
    and "noCallRejected (fst (mainResumed c s))"
  shows "quiescent (fst (mainResumed c s)) \<and> st = finalStats c (fst (mainResumed c s)) \<and>
         (mode c = Portions \<longrightarrow> \<not> aborted (fst (mainResumed c s)) \<longrightarrow>
            totalUrlsToProcess c \<le> chunkStart (fst (mainResumed c s)))"
proof (cases "mode c")
  case Threads
  with assms(2) have idle: "list_all (\<lambda>w. w = WorkerDone) (workers s)"
    and st: "st = finalStats c s" and same: "fst (mainResumed c s) = s"
    by (simp_all add: mainResumed_def split: option.splits if_splits)
  have "ended (execs s ! j)" if "j < length (execs s)" for j
  proof (rule ccontr)
    assume "\<not> ended (execs s ! j)"
    with assms(1) Threads that have "Awaiting j \<in> set (workers s)" by (simp add: linked_def)
    with idle show False by (auto simp: list_all_iff)
  qed
  then have "list_all ended (execs s)" by (simp add: list_all_length)
  with assms(3) same have "list_all (\<lambda>e. e = Returned) (execs s)"
    by (intro all_returned) simp_all
  with idle st same Threads show ?thesis by (simp add: quiescent_def)
next
  case Portions
  let ?s = "s\<lparr>chunkStart := chunkStart s + maxConcurrency c\<rparr>"
  from assms(2) Portions
  have cond: "allRejected s \<noteq> None \<or> list_all (\<lambda>k. exec_at s k = Some Returned) (chunk s)"
    and r: "snd (startChunk c ?s) = Some (Shared st)"
    and m: "mainResumed c s = startChunk c ?s"
    by (auto simp: mainResumed_def split: if_splits)
  from startChunk_returns [OF r] have same: "fst (startChunk c ?s) = ?s"
    and st: "st = finalStats c ?s"
    and last: "\<not> aborted s \<Longrightarrow> totalUrlsToProcess c \<le> chunkStart ?s" by simp_all
  from assms(3) m same have nr: "noCallRejected s" by (simp add: noCallRejected_def)
  from linked_all_ended [OF assms(1) Portions nr cond] nr
  have "list_all (\<lambda>e. e = Returned) (execs s)" by (rule all_returned)
  moreover from assms(1) Portions have "workers s = []" by (simp add: linked_def)
  ultimately show ?thesis using m same st last by (simp add: quiescent_def)
qed

lemma atReturn_start: "atReturn c (start c :: 'a engine)"
proof -
  have q: "quiescent (initial c :: 'a state)" by (simp add: quiescent_def initial_def)
  have "quiescent (fst (startChunk c (initial c :: 'a state))) \<and>
        st = finalStats c (fst (startChunk c (initial c :: 'a state))) \<and>
        (\<not> aborted (fst (startChunk c (initial c :: 'a state))) \<longrightarrow>
           totalUrlsToProcess c \<le> chunkStart (fst (startChunk c (initial c :: 'a state))))"
    if "snd (startChunk c (initial c :: 'a state)) = Some (Shared st)" for st
    using startChunk_returns [OF that] q by simp
  then show ?thesis
    by (simp add: atReturn_def start_def Let_def case_prod_beta split: mode.splits)
qed

lemma atReturn_same:
  assumes "atReturn c m" and "returned m' = returned m"
    and "endedKept (closure m) (closure m')"
    and "aborted (closure m) \<Longrightarrow> aborted (closure m')"
    and "quiescent (closure m) \<Longrightarrow> \<not> aborted (closure m') \<Longrightarrow> closure m' = closure m"
  shows "atReturn c m'"
  unfolding atReturn_def
proof (intro allI impI)
  fix st
  assume r: "returned m' = Some (Shared st)" and na: "\<not> aborted (closure m')"
    and nr: "noCallRejected (closure m')"
  from endedKept_noCallRejected [OF assms(3) nr] have "noCallRejected (closure m)" .
  moreover from na assms(4) have "\<not> aborted (closure m)" by blast
  moreover from r assms(2) have "returned m = Some (Shared st)" by simp
  ultimately have q: "quiescent (closure m)" "st = finalStats c (closure m)"
    "mode c = Portions \<longrightarrow> totalUrlsToProcess c \<le> chunkStart (closure m)"
    using assms(1) unfolding atReturn_def by blast+
  from assms(5) [OF q(1) na] q
  show "quiescent (closure m') \<and> st = finalStats c (closure m') \<and>
        (mode c = Portions \<longrightarrow> totalUrlsToProcess c \<le> chunkStart (closure m'))" by simp
qed

lemma atReturn_step:
  assumes "atReturn c m" and "linked c (closure m)"
  shows "atReturn c (step c m ev)"
proof (cases ev)
  case (TaskSettled k out)
  then show ?thesis
    by (intro atReturn_same [OF assms(1)])
       (simp_all add: endedKept_taskSettled quiescent_taskSettled)
next
  case (TimerFired k)
  then show ?thesis
    by (intro atReturn_same [OF assms(1)])
       (simp_all add: endedKept_timerFired quiescent_timerFired)
next
  case Abort
  then show ?thesis
    by (intro atReturn_same [OF assms(1)])
       (simp_all add: endedKept_abort aborted_abort abort_not_aborted)
next
  case (CallbackSettled k threw)
  then show ?thesis
    by (intro atReturn_same [OF assms(1)])
       (simp_all add: case_prod_beta endedKept_callbackSettled quiescent_callbackSettled)
next
  case (WorkerResumed i)
  then show ?thesis
    by (intro atReturn_same [OF assms(1)])
       (simp_all add: endedKept_workerResumed quiescent_workerResumed)
next
  case MainResumed
  show ?thesis
  proof (cases "returned m")
    case (Some r)
    with MainResumed assms(1) show ?thesis by simp
  next
    case None
    with MainResumed mainResumed_quiescent [OF assms(2)] show ?thesis
      by (simp add: atReturn_def case_prod_beta)
  qed
qed

lemma atReturn_run: "atReturn c (run c evs)"
  unfolding run_def
proof (induction evs rule: rev_induct)
  case Nil
  show ?case by (simp add: atReturn_start)
next
  case (snoc ev evs)
  with linked_run [of c evs] show ?case
    by (simp add: atReturn_step run_def)
qed

lemma quiescent_pending:
  "quiescent s \<Longrightarrow> sum_list (map pendingRetries (execs s)) = 0"
  by (auto simp: quiescent_def list_all_iff)

lemma early_return_aborted:
  "signal c = Some True \<Longrightarrow> aborted (closure (run c evs))"
  by (simp add: run_def run_after_early_return) (simp add: start_def initial_def)

text \<open>
  C3 as stated fails when the run is cancelled. One url, two retries allowed and no delay:
  the first attempt fails, the task is invoked again, the signal is aborted, the second
  attempt fails. A second retry is counted, and at the head of the loop the call ends
  with \<^verbatim>\<open>'Operation aborted'\<close>: the task was invoked twice, so the sum of
  \<^verbatim>\<open>max(0, attempts - 1)\<close> is 1, and \<^verbatim>\<open>totalRetriesMade\<close> is 2.
\<close>

theorem retries_cancelled_counterexample:
  "processUrlsConcurrentlyInTabs
     ((default_call [''a''] 1)\<lparr>maxRetries := 2, retryDelayMs := Ms (Num 0),
                                signal := Some False\<rparr>)
     [TaskSettled 0 (Rejected (Error ''TimeoutError'' ''t'')), Abort,
      TaskSettled 0 (Rejected (Error ''TimeoutError'' ''t'')), WorkerResumed 0,
      MainResumed :: nat event] =
   Some \<lparr>successfulResults = [], failedTasks = [],
         stats = \<lparr>totalUrlsProvided = 1, totalUrlsAttempted = 1, totalSuccess = 1,
                  totalFailed = 0, totalRetriesMade = 2\<rparr>\<rparr> \<and>
   itemLog (closure (run
     ((default_call [''a''] 1)\<lparr>maxRetries := 2, retryDelayMs := Ms (Num 0),
                                signal := Some False\<rparr>)
     [TaskSettled 0 (Rejected (Error ''TimeoutError'' ''t'')), Abort,
      TaskSettled 0 (Rejected (Error ''TimeoutError'' ''t'')), WorkerResumed 0,
      MainResumed :: nat event])) = [(''a'', 2)] \<and>
   retriesOf [(''a'', 2)] = 1"
  by (simp add: model_defs retriesOf_def)

text \<open>
  C3, amended. At every point of every run, each call of \<^verbatim>\<open>executeTaskWithRetries\<close>,
  whether it has left its retry loop or is in it, has invoked the task at most
  \<^verbatim>\<open>maxRetries + 1\<close> times; and when the call has returned, the signal was never aborted
  and no call of \<^verbatim>\<open>executeTaskWithRetries\<close> has thrown, \<^verbatim>\<open>totalRetriesMade\<close> is the sum
  over the items of the task invocations but the first.
\<close>

theorem retries_counted:
  "list_all (\<lambda>(u, n). n \<le> maxRetries c + 1) (itemLog (closure (run c evs))) \<and>
   list_all (\<lambda>e. invocations e \<le> maxRetries c + 1) (execs (closure (run c evs))) \<and>
   (\<forall>r. \<not> aborted (closure (run c evs)) \<longrightarrow> noCallRejected (closure (run c evs)) \<longrightarrow>
        processUrlsConcurrentlyInTabs c evs = Some r \<longrightarrow>
        RunStats.totalRetriesMade (stats r) = int (retriesOf (itemLog (closure (run c evs)))))"
proof -
  let ?s = "closure (run c evs)"
  have inv: "retryInv c ?s" by (rule retryInv_run)
  then have "list_all (okExec c) (execs ?s)" by (simp add: retryInv_def)
  then have execs: "list_all (\<lambda>e. invocations e \<le> maxRetries c + 1) (execs ?s)"
    using okExec_invocations [of c] by (auto simp: list_all_iff)
  have "RunStats.totalRetriesMade (stats r) = int (retriesOf (itemLog ?s))"
    if na: "\<not> aborted ?s" and nr: "noCallRejected ?s" and r: "fulfilled (run c evs) = Some r"
    for r
  proof -
    from na early_return_aborted [of c evs] have sig: "signal c \<noteq> Some True" by blast
    from lateReturn_run [OF sig, of evs] r
    obtain st where st: "returned (run c evs) = Some (Shared st)" "stats r = st"
      by (auto simp: fulfilled_def lateReturn_def split: option.splits settlement.splits)
    with atReturn_run [of c evs] na nr
    have q: "quiescent ?s" "st = finalStats c ?s" by (simp_all add: atReturn_def)
    from inv na nr quiescent_pending [OF q(1)]
    have "state.totalRetriesMade ?s = retriesOf (itemLog ?s)"
      by (simp add: retryInv_def)
    with st q show ?thesis by (simp add: finalStats_def)
  qed
  with inv execs show ?thesis
    by (simp add: retryInv_def processUrlsConcurrentlyInTabs_def)
qed

theorem retries_counted_witness:
  "\<not> aborted (closure (run ((default_call [''a'', ''b''] 1)\<lparr>maxRetries := 2\<rparr>)
     [TaskSettled 0 (Rejected (Error ''TimeoutError'' ''t'')), TimerFired 0,
      TaskSettled 0 (Rejected (Error ''TimeoutError'' ''t'')), TimerFired 0,
      TaskSettled 0 (Resolved [1::nat]), WorkerResumed 0,
      TaskSettled 1 (Rejected (Error ''Error'' ''x'')), WorkerResumed 0, MainResumed])) \<and>
   noCallRejected (closure (run ((default_call [''a'', ''b''] 1)\<lparr>maxRetries := 2\<rparr>)
     [TaskSettled 0 (Rejected (Error ''TimeoutError'' ''t'')), TimerFired 0,
      TaskSettled 0 (Rejected (Error ''TimeoutError'' ''t'')), TimerFired 0,
      TaskSettled 0 (Resolved [1::nat]), WorkerResumed 0,
      TaskSettled 1 (Rejected (Error ''Error'' ''x'')), WorkerResumed 0, MainResumed])) \<and>
   map_option (\<lambda>r. RunStats.totalRetriesMade (stats r))
     (processUrlsConcurrentlyInTabs ((default_call [''a'', ''b''] 1)\<lparr>maxRetries := 2\<rparr>)
        [TaskSettled 0 (Rejected (Error ''TimeoutError'' ''t'')), TimerFired 0,
         TaskSettled 0 (Rejected (Error ''TimeoutError'' ''t'')), TimerFired 0,
         TaskSettled 0 (Resolved [1::nat]), WorkerResumed 0,
         TaskSettled 1 (Rejected (Error ''Error'' ''x'')), WorkerResumed 0, MainResumed]) =
     Some 2 \<and>
   itemLog (closure (run ((default_call [''a'', ''b''] 1)\<lparr>maxRetries := 2\<rparr>)
     [TaskSettled 0 (Rejected (Error ''TimeoutError'' ''t'')), TimerFired 0,
      TaskSettled 0 (Rejected (Error ''TimeoutError'' ''t'')), TimerFired 0,
      TaskSettled 0 (Resolved [1::nat]), WorkerResumed 0,
      TaskSettled 1 (Rejected (Error ''Error'' ''x'')), WorkerResumed 0, MainResumed])) =
     [(''a'', 3), (''b'', 1)]"
  using retries_counted [of "(default_call [''a'', ''b''] 1)\<lparr>maxRetries := 2\<rparr>"
     "[TaskSettled 0 (Rejected (Error ''TimeoutError'' ''t'')), TimerFired 0,
       TaskSettled 0 (Rejected (Error ''TimeoutError'' ''t'')), TimerFired 0,
       TaskSettled 0 (Resolved [1::nat]), WorkerResumed 0,
       TaskSettled 1 (Rejected (Error ''Error'' ''x'')), WorkerResumed 0, MainResumed]"]
  by (simp add: model_defs noCallRejected_def)

subsection \<open>Runs in which a call throws\<close>

text \<open>
  Why the retry count leaves these runs out. 'portions' mode, two urls in one chunk, one
  retry allowed, the signal never aborted: the call for \<^verbatim>\<open>a\<close> throws on an oversized
  result, the task of \<^verbatim>\<open>b\<close> fails and its retry is counted, and the main function, woken
  by the rejection, returns while \<^verbatim>\<open>b\<close> is still in its retry delay. Each task was
  invoked once, and \<^verbatim>\<open>totalRetriesMade\<close> is 1.
\<close>

lemma retries_after_rejected_call:
  "processUrlsConcurrentlyInTabs
     ((default_call [''a'', ''b''] 2)\<lparr>mode := Portions, maxRetries := 1\<rparr>)
     [TaskSettled 0 (Oversized (Error ''RangeError'' ''Maximum call stack size exceeded'')),
      TaskSettled 1 (Rejected (Error ''TimeoutError'' ''t'')), MainResumed :: nat event] =
   Some \<lparr>successfulResults = [], failedTasks = [],
         stats = \<lparr>totalUrlsProvided = 2, totalUrlsAttempted = 2, totalSuccess = 1,
                  totalFailed = 0, totalRetriesMade = 1\<rparr>\<rparr> \<and>
   execs (closure (run
     ((default_call [''a'', ''b''] 2)\<lparr>mode := Portions, maxRetries := 1\<rparr>)
     [TaskSettled 0 (Oversized (Error ''RangeError'' ''Maximum call stack size exceeded'')),
      TaskSettled 1 (Rejected (Error ''TimeoutError'' ''t'')), MainResumed :: nat event])) =
     [Threw (Error ''RangeError'' ''Maximum call stack size exceeded''),
      AwaitDelay ''b'' 1 (Error ''TimeoutError'' ''t'') 1 500] \<and>
   \<not> aborted (closure (run
     ((default_call [''a'', ''b''] 2)\<lparr>mode := Portions, maxRetries := 1\<rparr>)
     [TaskSettled 0 (Oversized (Error ''RangeError'' ''Maximum call stack size exceeded'')),
      TaskSettled 1 (Rejected (Error ''TimeoutError'' ''t'')), MainResumed :: nat event]))"
  by (simp add: model_defs)

text \<open>
  The same run goes on after the return: the timer of \<^verbatim>\<open>b\<close> fires, its task resolves, and
  the result is pushed to the array that the returned object holds. The statistics of the
  returned object stay as they were computed.
\<close>

lemma results_pushed_after_return:
  "processUrlsConcurrentlyInTabs
     ((default_call [''a'', ''b''] 2)\<lparr>mode := Portions, maxRetries := 1\<rparr>)
     [TaskSettled 0 (Oversized (Error ''RangeError'' ''Maximum call stack size exceeded'')),
      TaskSettled 1 (Rejected (Error ''TimeoutError'' ''t'')), MainResumed,
      TimerFired 1, TaskSettled 1 (Resolved [5::nat])] =
   Some \<lparr>successfulResults = [5], failedTasks = [],
         stats = \<lparr>totalUrlsProvided = 2, totalUrlsAttempted = 2, totalSuccess = 1,
                  totalFailed = 0, totalRetriesMade = 1\<rparr>\<rparr>"
  by (simp add: model_defs)

text \<open>
  In 'threads' mode nothing catches the rejection: with an \<^verbatim>\<open>isRetryable\<close> that throws,
  the first failed attempt makes the call of \<^verbatim>\<open>executeTaskWithRetries\<close> throw, then its
  worker, then \<^verbatim>\<open>processUrlsConcurrentlyInTabs\<close> itself. The other worker goes on.
\<close>

lemma rejected_call_in_threads_mode:
  "returned (run
     ((default_call [''a'', ''b''] 2)\<lparr>isRetryable := (\<lambda>e. Inl (Error ''TypeError'' ''x''))\<rparr>)
     [TaskSettled 0 (Rejected (Error ''TimeoutError'' ''t'')), WorkerResumed 0, MainResumed,
      TaskSettled 1 (Resolved [5::nat]), WorkerResumed 1]) =
     Some (Failed (Error ''TypeError'' ''x'')) \<and>
   processUrlsConcurrentlyInTabs
     ((default_call [''a'', ''b''] 2)\<lparr>isRetryable := (\<lambda>e. Inl (Error ''TypeError'' ''x''))\<rparr>)
     [TaskSettled 0 (Rejected (Error ''TimeoutError'' ''t'')), WorkerResumed 0, MainResumed,
      TaskSettled 1 (Resolved [5::nat]), WorkerResumed 1] = None \<and>
   workers (closure (run
     ((default_call [''a'', ''b''] 2)\<lparr>isRetryable := (\<lambda>e. Inl (Error ''TypeError'' ''x''))\<rparr>)
     [TaskSettled 0 (Rejected (Error ''TimeoutError'' ''t'')), WorkerResumed 0, MainResumed,
      TaskSettled 1 (Resolved [5::nat]), WorkerResumed 1])) =
     [WorkerFailed (Error ''TypeError'' ''x''), WorkerDone]"
  by (simp add: model_defs)

subsection \<open>Bounded concurrency as long as no call throws\<close>

lemma sized_fields [simp]:
  "sized c (s\<lparr>abortListeners := x1\<rparr>) = sized c s"
  "sized c (s\<lparr>urlQueue := x2\<rparr>) = sized c s"
  "sized c (s\<lparr>chunkStart := x3\<rparr>) = sized c s"
  "sized c (s\<lparr>aborted := x7\<rparr>) = sized c s"
  "sized c (s\<lparr>allRejected := x8\<rparr>) = sized c s"
  by (simp_all add: sized_def)

lemma sized_taskSettled [simp]: "sized c (taskSettled c k out s) = sized c s"
  by (simp add: sized_def taskSettled_def Let_def
      split: option.splits exec.splits outcome.splits sum.splits)

lemma sized_timerFired [simp]: "sized c (timerFired c k s) = sized c s"
  by (simp add: sized_def timerFired_def split: option.splits exec.splits)

lemma sized_abortDuringDelay [simp]: "sized c (abortDuringDelay c s k) = sized c s"
  by (simp add: sized_def abortDuringDelay_def split: option.splits exec.splits)

lemma sized_abortAll [simp]: "sized c (foldl (abortDuringDelay c) s ks) = sized c s"
  by (induction ks arbitrary: s) simp_all

lemma sized_abort [simp]: "sized c (abort c s) = sized c s"
  by (simp add: abort_def)

lemma sized_callbackSettled [simp]: "sized c (fst (callbackSettled c k threw s)) = sized c s"
  by (simp add: sized_def callbackSettled_def split: option.splits exec.splits)

lemma sized_workerLoop [simp]: "sized c (workerLoop c i s) = sized c s"
  by (simp add: sized_def workerLoop_def Let_def split: list.splits)

lemma sized_workerResumed [simp]: "sized c (workerResumed c i s) = sized c s"
  by (simp add: workerResumed_def split: option.splits worker.splits exec.splits)
     (simp add: sized_def)

lemma sized_launchAll [simp]: "sized c (foldl (\<lambda>t i. workerLoop c i t) s ks) = sized c s"
  by (induction ks arbitrary: s) simp_all

lemma startAll_sizes:
  "workers (foldl (\<lambda>t u. (executeTaskWithRetries c u t)\<lparr>chunk := chunk t @ [length (execs t)]\<rparr>)
              s us) = workers s \<and>
   length (chunk (foldl (\<lambda>t u. (executeTaskWithRetries c u t)\<lparr>chunk := chunk t @ [length (execs t)]\<rparr>)
                    s us)) = length (chunk s) + length us"
  by (induction us arbitrary: s) simp_all

lemma sized_startChunk: "sized c s \<Longrightarrow> sized c (fst (startChunk c s))"
  by (simp add: startChunk_def sized_def startAll_sizes)

lemma sized_mainResumed: "sized c s \<Longrightarrow> sized c (fst (mainResumed c s))"
  by (simp add: mainResumed_def sized_startChunk split: mode.splits option.splits)

lemma sized_start: "sized c (closure (start c :: 'a engine))"
proof -
  have "sized c (initial c :: 'a state)" by (simp add: sized_def initial_def)
  moreover have "sized c ((initial c :: 'a state)\<lparr>urlQueue := q,
      workers := replicate (min (maxConcurrency c) n) Idle\<rparr>)" for n q
    by (simp add: sized_def initial_def)
  ultimately show ?thesis
    by (simp add: start_def Let_def case_prod_beta sized_startChunk split: mode.splits)
qed

lemma sized_step: "sized c (closure m) \<Longrightarrow> sized c (closure (step c m ev))"
  by (cases ev) (simp_all add: case_prod_beta sized_mainResumed)

lemma sized_run: "sized c (closure (run c evs))"
  unfolding run_def
  by (induction evs rule: rev_induct) (simp_all add: sized_start sized_step)

lemma awaitsTask_not_ended: "awaitsTask e \<Longrightarrow> \<not> ended e"
  by (cases e) simp_all

text \<open>
  In 'threads' mode always, and in 'portions' mode as long as no call of
  \<^verbatim>\<open>executeTaskWithRetries\<close> has thrown, at most \<^verbatim>\<open>maxConcurrency\<close> task invocations are in
  flight: every call that has not ended is awaited by a worker of its own, or is one of
  the calls of the current chunk, whose end the main function awaits.
\<close>

lemma bounded_unless_rejected:
  assumes "mode c = Threads \<or> noCallRejected (closure (run c evs))"
  shows "inFlight (closure (run c evs)) \<le> maxConcurrency c"
proof -
  let ?s = "closure (run c evs)"
  let ?A = "{k. k < length (execs ?s) \<and> awaitsTask (execs ?s ! k)}"
  have linked: "linked c ?s" by (rule linked_run)
  have sized: "sized c ?s" by (rule sized_run)
  have inFlight: "inFlight ?s = card ?A"
    by (simp add: inFlight_def length_filter_conv_card)
  show ?thesis
  proof (cases "mode c")
    case Threads
    with linked have "Awaiting ` ?A \<subseteq> set (workers ?s)"
      by (auto simp: linked_def dest: awaitsTask_not_ended)
    then have "card (Awaiting ` ?A) \<le> card (set (workers ?s))"
      by (intro card_mono) simp_all
    moreover have "card (Awaiting ` ?A) = card ?A"
      by (intro card_image) (simp add: inj_on_def)
    moreover have "card (set (workers ?s)) \<le> length (workers ?s)" by (rule card_length)
    ultimately show ?thesis using sized inFlight by (simp add: sized_def)
  next
    case Portions
    with assms have "noCallRejected ?s" by simp
    with linked Portions have "?A \<subseteq> set (chunk ?s)"
      by (auto simp: linked_def dest: awaitsTask_not_ended)
    then have "card ?A \<le> card (set (chunk ?s))"
      by (intro card_mono) simp_all
    moreover have "card (set (chunk ?s)) \<le> length (chunk ?s)" by (rule card_length)
    ultimately show ?thesis using sized inFlight by (simp add: sized_def)
  qed
qed

subsection \<open>The completion count without the empty url\<close>

lemma afterLoop_inLoop [simp]: "inLoop (afterLoop c err x) = 0"
  by (simp add: afterLoop_def split: option.splits)

lemma countInv_fields [simp]:
  "countInv c (s\<lparr>state.totalRetriesMade := x\<rparr>) = countInv c s"
  "countInv c (s\<lparr>abortListeners := y\<rparr>) = countInv c s"
  "countInv c (s\<lparr>itemLog := z\<rparr>) = countInv c s"
  "countInv c (s\<lparr>allRejected := w\<rparr>) = countInv c s"
  "countInv c (s\<lparr>chunk := v\<rparr>) = countInv c s"
  by (simp_all add: countInv_def remaining_def noCallRejected_def cong: mode.case_cong)

text \<open>
  A step inside a call of \<^verbatim>\<open>executeTaskWithRetries\<close> keeps the number of urls completed or
  in a retry loop, unless the call throws.
\<close>

lemma countInv_exec:
  fixes s s' :: "'a state"
  assumes "countInv c s" and "aborted s' = aborted s" and "urlQueue s' = urlQueue s"
    and "chunkStart s' = chunkStart s" and "workers s' = workers s"
    and "noCallRejected s' \<Longrightarrow> noCallRejected s"
    and "noCallRejected s' \<Longrightarrow>
         completedCount s' + sum_list (map inLoop (execs s')) =
         completedCount s + sum_list (map inLoop (execs s))"
  shows "countInv c s'"
  using assms by (auto simp: countInv_def remaining_def split: mode.splits)

lemma complete_count:
  assumes "k < length (execs s)"
  shows "completedCount (complete c k u n err res s) +
           sum_list (map inLoop (execs (complete c k u n err res s))) + inLoop (execs s ! k) =
         completedCount s + sum_list (map inLoop (execs s)) + 1"
  using sum_list_update [OF assms, of inLoop "afterLoop c err (pushError res)"]
  by (simp add: complete_execs)

lemma attempt_count:
  assumes "k < length (execs s)" and "\<not> aborted s"
  shows "completedCount (attempt c k u a n err s) +
           sum_list (map inLoop (execs (attempt c k u a n err s))) + inLoop (execs s ! k) =
         completedCount s + sum_list (map inLoop (execs s)) + 1"
proof (cases "a \<le> maxRetries c")
  case True
  with assms sum_list_update [OF assms(1), of inLoop "AwaitTask u a (n + 1)"]
  show ?thesis by (simp add: attempt_def)
next
  case False
  with complete_count [OF assms(1)] show ?thesis by (simp add: attempt_def)
qed

lemma inLoop_not_ended: "inLoop e = 1 \<Longrightarrow> \<not> ended e"
  by (cases e) simp_all

lemma countInv_set_exec:
  assumes "countInv c s" and "k < length (execs s)" and "inLoop e = inLoop (execs s ! k)"
    and "\<not> isThrew (execs s ! k)"
  shows "countInv c (set_exec k e s)"
proof (rule countInv_exec [OF assms(1)])
  show "noCallRejected s" if "noCallRejected (set_exec k e s)"
    by (rule noCallRejected_updateD [OF that, of s k e]) (simp_all add: assms(4))
  show "completedCount (set_exec k e s) + sum_list (map inLoop (execs (set_exec k e s))) =
        completedCount s + sum_list (map inLoop (execs s))"
    using sum_list_update [OF assms(2), of inLoop e] assms(3) by simp
qed simp_all

lemma countInv_complete:
  assumes "countInv c s" and "k < length (execs s)" and "inLoop (execs s ! k) = 1"
  shows "countInv c (complete c k u n err res s)"
proof (rule countInv_exec [OF assms(1)])
  from assms(3) have "\<not> isThrew (execs s ! k)" by (cases "execs s ! k") simp_all
  then show "noCallRejected s" if "noCallRejected (complete c k u n err res s)"
    by (intro noCallRejected_updateD [OF that complete_execs])
  show "completedCount (complete c k u n err res s) +
          sum_list (map inLoop (execs (complete c k u n err res s))) =
        completedCount s + sum_list (map inLoop (execs s))"
    using complete_count [OF assms(2), of c u n err res] assms(3) by simp
qed simp_all

lemma countInv_attempt:
  assumes "countInv c s" and "k < length (execs s)" and "inLoop (execs s ! k) = 1"
  shows "countInv c (attempt c k u a n err s)"
proof (cases "aborted s")
  case True
  then show ?thesis by (simp add: countInv_def)
next
  case False
  show ?thesis
  proof (rule countInv_exec [OF assms(1)])
    from assms(3) have "\<not> isThrew (execs s ! k)" by (cases "execs s ! k") simp_all
    then show "noCallRejected s" if "noCallRejected (attempt c k u a n err s)"
      by (intro noCallRejected_updateD [OF that attempt_execs])
    show "completedCount (attempt c k u a n err s) +
            sum_list (map inLoop (execs (attempt c k u a n err s))) =
          completedCount s + sum_list (map inLoop (execs s))"
      using attempt_count [OF assms(2) False, of c u a n err] assms(3) by simp
  qed simp_all
qed

lemma countInv_reject: "k < length (execs s) \<Longrightarrow> countInv c (reject c k x s)"
  using noCallRejected_new [of "reject c k x s" s k "Threw x"]
  by (auto simp: countInv_def)

lemma countInv_taskSettled:
  assumes "countInv c s"
  shows "countInv c (taskSettled c k out s)"
proof (cases "exec_at s k")
  case None
  with assms show ?thesis by (simp add: taskSettled_def)
next
  case (Some x)
  show ?thesis
  proof (cases x)
    case (AwaitTask u a n)
    from exec_atD [OF Some] AwaitTask
    have k: "k < length (execs s)" "inLoop (execs s ! k) = 1" "\<not> isThrew (execs s ! k)"
      by simp_all
    have final: "countInv c (complete c k u n err res s)" for err res
      using assms k(1,2) by (rule countInv_complete)
    let ?s1 = "s\<lparr>state.totalRetriesMade := state.totalRetriesMade s + 1\<rparr>"
    have again: "countInv c (attempt c k u (a + 1) n err ?s1)" for err
      using assms k by (intro countInv_attempt) simp_all
    have sleep: "countInv c (set_exec k (AwaitDelay u (a + 1) err n d)
                               (?s1\<lparr>abortListeners := ls\<rparr>))" for err d ls
      using assms k by (intro countInv_set_exec) simp_all
    have sleep': "countInv c (set_exec k (AwaitDelay u (a + 1) err n d) ?s1)" for err d
      using assms k by (intro countInv_set_exec) simp_all
    have thrown: "countInv c (reject c k y t)" if "execs t = execs s" for y and t :: "'a state"
      using k(1) that by (intro countInv_reject) simp
    from Some AwaitTask final again sleep sleep' thrown show ?thesis
      by (simp add: taskSettled_def Let_def split: outcome.splits sum.splits)
  qed (use assms Some in \<open>simp_all add: taskSettled_def\<close>)
qed

lemma countInv_timerFired:
  assumes "countInv c s"
  shows "countInv c (timerFired c k s)"
proof (cases "exec_at s k")
  case None
  with assms show ?thesis by (simp add: timerFired_def)
next
  case (Some x)
  show ?thesis
  proof (cases x)
    case (AwaitDelay u a err n d)
    from exec_atD [OF Some] AwaitDelay have k: "k < length (execs s)" "inLoop (execs s ! k) = 1"
      by simp_all
    have "countInv c (attempt c k u a n (Some err)
                        (s\<lparr>abortListeners := remove1 k (abortListeners s)\<rparr>))"
      using assms k by (intro countInv_attempt) simp_all
    with Some AwaitDelay show ?thesis by (simp add: timerFired_def)
  qed (use assms Some in \<open>simp_all add: timerFired_def\<close>)
qed

lemma countInv_abort:
  assumes "countInv c s"
  shows "countInv c (abort c s)"
proof (cases "signal c = None \<or> aborted s")
  case True
  with assms show ?thesis by (simp add: abort_def)
next
  case False
  then have "aborted (abort c s)" by (simp add: abort_def)
  then show ?thesis by (simp add: countInv_def)
qed

lemma countInv_callbackSettled:
  assumes "countInv c s"
  shows "countInv c (fst (callbackSettled c k threw s))"
proof (cases "exec_at s k")
  case None
  with assms show ?thesis by (simp add: callbackSettled_def)
next
  case (Some x)
  from exec_atD [OF Some] have k: "k < length (execs s)" "execs s ! k = x" by simp_all
  have move: "countInv c (set_exec k e s)"
    if "inLoop x = 0" and "\<not> isThrew x" and "e = AwaitOnProgress \<or> e = Returned" for e
    using assms k that by (intro countInv_set_exec) auto
  show ?thesis
  proof (cases x)
    case (AwaitOnError err)
    with Some move show ?thesis by (simp add: callbackSettled_def progress_def)
  next
    case AwaitOnProgress
    with Some move show ?thesis by (simp add: callbackSettled_def)
  qed (use assms Some in \<open>simp_all add: callbackSettled_def\<close>)
qed

lemma execute_fresh:
  "\<not> aborted s \<Longrightarrow> execs (executeTaskWithRetries c u s) = execs s @ [AwaitTask u 0 1]"
  by (simp add: execute_execs)

lemma execute_completedCount:
  "\<not> aborted s \<Longrightarrow> completedCount (executeTaskWithRetries c u s) = completedCount s"
  by (simp add: executeTaskWithRetries_def attempt_def)

lemma not_in_set_update: "x \<notin> set xs \<Longrightarrow> y \<noteq> x \<Longrightarrow> x \<notin> set (xs[i := y])"
  using set_update_subset_insert [of xs i y] by auto

lemma countInv_workerLoop:
  assumes "countInv c s" and "mode c = Threads" and "i < length (workers s)"
  shows "countInv c (workerLoop c i s)"
proof (cases "aborted s \<or> \<not> noCallRejected s")
  case True
  have "noCallRejected s" if "noCallRejected (workerLoop c i s)"
    using endedKept_noCallRejected [OF endedKept_workerLoop that] .
  with True show ?thesis by (auto simp: countInv_def)
next
  case False
  with assms have inv: "completedCount s + sum_list (map inLoop (execs s)) + length (urlQueue s) =
                        totalUrlsToProcess c"
    "[] \<notin> set (urlQueue s)"
    "urlQueue s \<noteq> [] \<Longrightarrow> WorkerDone \<notin> set (workers s)"
    by (simp_all add: countInv_def remaining_def)
  show ?thesis
  proof (cases "urlQueue s")
    case Nil
    with inv False assms(2) show ?thesis
      by (simp add: workerLoop_def countInv_def remaining_def noCallRejected_def)
  next
    case (Cons u rest)
    with inv have u: "u \<noteq> []" and rest: "[] \<notin> set rest" by auto
    from Cons inv(3) have "WorkerDone \<notin> set (workers s)" by simp
    then have "WorkerDone \<notin> set ((workers s)[i := Awaiting (length (execs s))])"
      by (rule not_in_set_update) simp
    moreover from assms(3) have "(workers s)[i := Awaiting (length (execs s))] \<noteq> []" by auto
    ultimately show ?thesis
      using Cons u rest inv(1) False assms(2)
      by (simp add: workerLoop_def execute_fresh execute_completedCount countInv_def
          remaining_def noCallRejected_def)
  qed
qed

lemma countInv_workerResumed:
  assumes "countInv c s"
  shows "countInv c (workerResumed c i s)"
proof (cases "mode c = Threads")
  case False
  with assms show ?thesis by (simp add: workerResumed_def)
next
  case True
  show ?thesis
  proof (cases "worker_at s i")
    case None
    with assms show ?thesis by (simp add: workerResumed_def)
  next
    case (Some w)
    from worker_atD [OF Some] have i: "i < length (workers s)" by simp
    have crash: "countInv c ((set_worker i (WorkerFailed x) s)\<lparr>allRejected := y\<rparr>)"
      if "exec_at s k = Some (Threw x)" for k x y
    proof -
      from exec_atD [OF that] have "\<not> noCallRejected s"
        by (auto simp: noCallRejected_def list_all_length)
      then show ?thesis by (simp add: countInv_def noCallRejected_def)
    qed
    from assms True Some i crash show ?thesis
      by (simp add: workerResumed_def countInv_workerLoop
          split: worker.splits option.splits exec.splits)
  qed
qed

lemma workerLoop_length [simp]: "length (workers (workerLoop c i s)) = length (workers s)"
  by (simp add: workerLoop_def Let_def split: list.splits)

lemma countInv_launch:
  assumes "countInv c s" and "mode c = Threads" and "\<forall>i \<in> set ks. i < length (workers s)"
  shows "countInv c (foldl (\<lambda>t i. workerLoop c i t) s ks)"
  using assms(1,3)
proof (induction ks arbitrary: s)
  case Nil
  then show ?case by simp
next
  case (Cons k ks)
  have "countInv c (workerLoop c k s)"
    using Cons.prems assms(2) by (intro countInv_workerLoop) simp_all
  moreover have "\<forall>i \<in> set ks. i < length (workers (workerLoop c k s))"
    using Cons.prems by simp
  ultimately show ?case using Cons.IH by simp
qed

text \<open>A chunk that is not cancelled: every url of it is in its retry loop.\<close>

lemma startAll_fresh:
  assumes "\<not> aborted s"
  shows "completedCount (foldl (\<lambda>t u. (executeTaskWithRetries c u t)
                                   \<lparr>chunk := chunk t @ [length (execs t)]\<rparr>) s us) =
           completedCount s \<and>
         chunkStart (foldl (\<lambda>t u. (executeTaskWithRetries c u t)
                                   \<lparr>chunk := chunk t @ [length (execs t)]\<rparr>) s us) =
           chunkStart s \<and>
         sum_list (map inLoop
             (execs (foldl (\<lambda>t u. (executeTaskWithRetries c u t)
                                   \<lparr>chunk := chunk t @ [length (execs t)]\<rparr>) s us))) =
           sum_list (map inLoop (execs s)) + length us"
  using assms
proof (induction us arbitrary: s)
  case Nil
  then show ?case by simp
next
  case (Cons u us)
  let ?s = "(executeTaskWithRetries c u s)\<lparr>chunk := chunk s @ [length (execs s)]\<rparr>"
  from Cons.prems have "\<not> aborted ?s" by simp
  from Cons.IH [OF this] Cons.prems show ?case
    by (simp add: execute_fresh execute_completedCount)
qed

lemma chunk_arith: "i < t \<Longrightarrow> i + min m (t - i) + (t - min t (i + m)) = (t::nat)"
  by (cases "m \<le> t - i") (simp_all add: min_def, arith+)

lemma countInv_startChunk:
  assumes "mode c = Portions"
    and "\<not> aborted s \<Longrightarrow> noCallRejected s \<Longrightarrow> sum_list (map inLoop (execs s)) = 0"
    and "\<not> aborted s \<Longrightarrow> noCallRejected s \<Longrightarrow>
         completedCount s = min (totalUrlsToProcess c) (chunkStart s)"
  shows "countInv c (fst (startChunk c s))"
proof (cases "aborted s \<or> \<not> noCallRejected s")
  case True
  have "noCallRejected s" if "noCallRejected (fst (startChunk c s))"
    using endedKept_noCallRejected [OF endedKept_startChunk that] .
  with True show ?thesis by (auto simp: countInv_def)
next
  case False
  let ?us = "take (maxConcurrency c) (drop (chunkStart s) (urlsToProcess c))"
  let ?s = "s\<lparr>chunk := [], allRejected := None\<rparr>"
  let ?t = "foldl (\<lambda>t u. (executeTaskWithRetries c u t)\<lparr>chunk := chunk t @ [length (execs t)]\<rparr>)
              ?s ?us"
  from False have "\<not> aborted ?s" by simp
  from startAll_fresh [OF this, of c ?us] assms(2) False
  have t: "completedCount ?t = completedCount s" "chunkStart ?t = chunkStart s"
    "sum_list (map inLoop (execs ?t)) = length ?us"
    by simp_all
  show ?thesis
  proof (cases "chunkStart s < totalUrlsToProcess c")
    case True
    have len: "length ?us = min (maxConcurrency c) (totalUrlsToProcess c - chunkStart s)"
      by (simp add: totalUrlsToProcess_def)
    have rem: "remaining c ?t =
               totalUrlsToProcess c - min (totalUrlsToProcess c) (chunkStart s + maxConcurrency c)"
      using t(2) assms(1) by (simp add: remaining_def)
    have "completedCount ?t = chunkStart s"
      using t(1) assms(3) False True by simp
    with t(3) len rem chunk_arith [OF True, of "maxConcurrency c"]
    have "completedCount ?t + sum_list (map inLoop (execs ?t)) + remaining c ?t =
          totalUrlsToProcess c"
      by simp
    with assms(1) have "countInv c ?t" by (simp add: countInv_def)
    with True False show ?thesis by (simp add: startChunk_def)
  next
    case no: False
    with assms False show ?thesis
      by (simp add: startChunk_def countInv_def remaining_def min_def)
  qed
qed

lemma ended_inLoop: "list_all ended xs \<Longrightarrow> sum_list (map inLoop xs) = 0"
proof (induction xs)
  case Nil
  show ?case by simp
next
  case (Cons x xs)
  then show ?case by (cases x) simp_all
qed

lemma countInv_mainResumed:
  assumes "countInv c s" and "linked c s"
  shows "countInv c (fst (mainResumed c s))"
proof (cases "mode c = Portions \<and>
    (allRejected s \<noteq> None \<or> list_all (\<lambda>k. exec_at s k = Some Returned) (chunk s))")
  case True
  let ?s = "s\<lparr>chunkStart := chunkStart s + maxConcurrency c\<rparr>"
  have sum: "sum_list (map inLoop (execs ?s)) = 0" if "noCallRejected ?s"
  proof -
    from that have "noCallRejected s" by (simp add: noCallRejected_def)
    from linked_all_ended [OF assms(2) _ this] True show ?thesis
      by (simp add: ended_inLoop)
  qed
  have "completedCount ?s = min (totalUrlsToProcess c) (chunkStart ?s)"
    if "\<not> aborted ?s" "noCallRejected ?s"
  proof -
    from that(2) have nr: "noCallRejected s" by (simp add: noCallRejected_def)
    from sum [OF that(2)] have "sum_list (map inLoop (execs s)) = 0" by simp
    moreover from that(1) nr assms(1) True
    have "completedCount s + sum_list (map inLoop (execs s)) +
            (totalUrlsToProcess c -
               min (totalUrlsToProcess c) (chunkStart s + maxConcurrency c)) =
          totalUrlsToProcess c"
      by (simp add: countInv_def remaining_def)
    ultimately show ?thesis
      by (simp only: add_0_right) (simp add: min_def split: if_splits)
  qed
  with True sum have "countInv c (fst (startChunk c ?s))"
    by (intro countInv_startChunk) simp_all
  with True show ?thesis by (simp add: mainResumed_def)
next
  case False
  with assms(1) show ?thesis by (auto simp: mainResumed_def split: mode.splits option.splits)
qed

lemma countInv_start:
  assumes "1 \<le> maxConcurrency c" and "mode c = Threads \<longrightarrow> [] \<notin> set (urls c)"
  shows "countInv c (closure (start c :: 'a engine))"
proof (cases "signal c = Some True")
  case True
  then show ?thesis by (simp add: start_def countInv_def initial_def)
next
  case False
  show ?thesis
  proof (cases "mode c")
    case Threads
    let ?n = "min (maxConcurrency c) (totalUrlsToProcess c)"
    let ?s = "(initial c :: 'a state)\<lparr>urlQueue := urlsToProcess c,
                                         workers := replicate ?n Idle\<rparr>"
    from Threads assms(2) have "[] \<notin> set (urlsToProcess c)"
      by (simp add: urlsToProcess_def uniqueUrls_def set_addAll)
    moreover from assms(1) have "?n \<noteq> 0" if "urlsToProcess c \<noteq> []"
      using that by (simp add: totalUrlsToProcess_def min_def)
    ultimately have "countInv c ?s"
      using Threads
      by (auto simp: countInv_def remaining_def initial_def totalUrlsToProcess_def)
    then have "countInv c (foldl (\<lambda>t i. workerLoop c i t) ?s [0..<?n])"
      using Threads by (rule countInv_launch) simp
    with False Threads show ?thesis by (simp add: start_def Let_def)
  next
    case Portions
    have "countInv c (fst (startChunk c (initial c :: 'a state)))"
      using Portions by (intro countInv_startChunk) (simp_all add: initial_def)
    with False Portions show ?thesis by (simp add: start_def case_prod_beta)
  qed
qed

lemma countInv_step:
  "countInv c (closure m) \<Longrightarrow> linked c (closure m) \<Longrightarrow> countInv c (closure (step c m ev))"
  by (cases ev)
     (simp_all add: case_prod_beta countInv_taskSettled countInv_timerFired countInv_abort
        countInv_callbackSettled countInv_workerResumed countInv_mainResumed)

lemma countInv_run:
  assumes "1 \<le> maxConcurrency c" and "mode c = Threads \<longrightarrow> [] \<notin> set (urls c)"
  shows "countInv c (closure (run c evs))"
proof (induction evs rule: rev_induct)
  case Nil
  show ?case by (simp add: run_def countInv_start [OF assms])
next
  case (snoc ev evs)
  with linked_run [of c evs] show ?case
    by (simp add: run_def countInv_step)
qed

text \<open>
  The completion count holds for every run that is not cancelled, in which no call of
  \<^verbatim>\<open>executeTaskWithRetries\<close> has thrown and that has, in 'threads' mode, no empty string
  among its urls.
\<close>

lemma completion_count:
  assumes "1 \<le> maxConcurrency c" and "mode c = Threads \<longrightarrow> [] \<notin> set (urls c)"
    and "\<not> aborted (closure (run c evs))" and "noCallRejected (closure (run c evs))"
    and "processUrlsConcurrentlyInTabs c evs = Some r"
  shows "totalUrlsAttempted (stats r) = totalSuccess (stats r) + totalFailed (stats r)"
proof -
  let ?s = "closure (run c evs)"
  from assms(3) early_return_aborted [of c evs] have sig: "signal c \<noteq> Some True" by blast
  from lateReturn_run [OF sig, of evs] assms(5)
  obtain st where st: "returned (run c evs) = Some (Shared st)" "stats r = st"
    by (auto simp: processUrlsConcurrentlyInTabs_def fulfilled_def lateReturn_def
        split: option.splits settlement.splits)
  with atReturn_run [of c evs] assms(3,4)
  have q: "quiescent ?s" "st = finalStats c ?s"
    "mode c = Portions \<Longrightarrow> totalUrlsToProcess c \<le> chunkStart ?s"
    by (simp_all add: atReturn_def)
  from q(1) have sum: "sum_list (map inLoop (execs ?s)) = 0"
    by (auto simp: quiescent_def list_all_iff)
  from countInv_run [OF assms(1,2), of evs] assms(3,4) sum
  have inv: "completedCount ?s + remaining c ?s = totalUrlsToProcess c"
    "mode c = Threads \<Longrightarrow> urlQueue ?s \<noteq> [] \<Longrightarrow> workers ?s \<noteq> [] \<and> WorkerDone \<notin> set (workers ?s)"
    by (simp_all add: countInv_def)
  have "remaining c ?s = 0"
  proof (cases "mode c")
    case Threads
    from q(1) have "workers ?s = [] \<or> WorkerDone \<in> set (workers ?s)"
      by (cases "workers ?s") (simp_all add: quiescent_def)
    with inv(2) [OF Threads] have "urlQueue ?s = []" by blast
    with Threads show ?thesis by (simp add: remaining_def)
  next
    case Portions
    with q(3) show ?thesis by (simp add: remaining_def)
  qed
  with inv(1) have "completedCount ?s = totalUrlsToProcess c" by simp
  with st q(2) show ?thesis by (simp add: finalStats_def)
qed

text \<open>A run is not cancelled when the signal is not aborted at the call and never fires.\<close>

lemma step_aborted:
  "ev \<noteq> Abort \<Longrightarrow> aborted (closure (step c m ev)) = aborted (closure m)"
  by (cases ev) (simp_all add: case_prod_beta)

lemma start_aborted: "aborted (closure (start c)) = (signal c = Some True)"
  by (simp add: start_def initial_def Let_def case_prod_beta split: mode.splits)

lemma not_cancelled:
  assumes "signal c \<noteq> Some True" and "Abort \<notin> set evs"
  shows "\<not> aborted (closure (run c evs))"
  using assms(2)
proof (induction evs rule: rev_induct)
  case Nil
  with assms(1) show ?case by (simp add: run_def start_aborted)
next
  case (snoc ev evs)
  then have "ev \<noteq> Abort" by auto
  from step_aborted [OF this, of c "run c evs"] snoc show ?case
    by (simp add: run_def)
qed

end
